theory Spec2Isabelle
  imports
    Complex_Main
    "HOL-Library.Char_ord"
    "HOL-Library.List_Lexorder"
    "HOL-Library.Multiset"
    "HOL-Library.AList"
begin

section \<open>Data model (src/types.ts)\<close>

datatype RoomType = MonsterTreasure | Monster | Treasure | Special | Empty

datatype ConnectionType = Open | Closed | Trapped | Hazardous | Secret

text \<open>
  An optional property of a TypeScript interface (\<open>entrance?: boolean\<close>) is an
  \<open>option\<close>: \<open>None\<close> is the absent (undefined) property. The field \<open>id\<close> of the
  source is called \<open>node_id\<close> here, since \<open>id\<close> is HOL's identity function.
\<close>

record DungeonNode =
  node_id :: string
  label :: string
  roomType :: RoomType
  content :: string
  entrance :: "bool option"
  parentNodeId :: "string option"

record DungeonLink =
  source :: string
  target :: string
  connectionType :: ConnectionType
  description :: "string option"
  clueRoomId :: "string option"

record GraphData =
  nodes :: "DungeonNode list"
  links :: "DungeonLink list"

text \<open>Everything the code can throw: a TypeError of the runtime (a method called on
  \<open>undefined\<close>) and the generator's own \<open>Error('Duplicate edge')\<close>.\<close>

datatype error = TypeError | DuplicateEdge

section \<open>Field updates and added connections (graphUtils)\<close>

text \<open>
  \<open>[a, b].sort().join('-')\<close>: the default sort of JavaScript orders strings by their
  code units, lexicographically, which is the order of \<open>string\<close> here; of two equal
  strings either order joins to the same text.
\<close>

definition normKey :: "string \<Rightarrow> string \<Rightarrow> string" where
  "normKey a b = (if b < a then b @ ''-'' @ a else a @ ''-'' @ b)"

text \<open>\<open>Partial<Pick<DungeonNode, 'label' | 'content' | 'entrance'>>\<close>: \<open>None\<close> is a key
  the update object does not have.\<close>

record NodeUpdates =
  upd_label :: "string option"
  upd_content :: "string option"
  upd_entrance :: "bool option"

record LinkUpdates =
  upd_connectionType :: "ConnectionType option"
  upd_description :: "string option"
  upd_clueRoomId :: "string option"

definition applyNodeUpdates :: "DungeonNode \<Rightarrow> NodeUpdates \<Rightarrow> DungeonNode" where
  "applyNodeUpdates n u =
     n\<lparr> label := (case upd_label u of None \<Rightarrow> label n | Some x \<Rightarrow> x),
        content := (case upd_content u of None \<Rightarrow> content n | Some x \<Rightarrow> x),
        entrance := (case upd_entrance u of None \<Rightarrow> entrance n | Some x \<Rightarrow> Some x) \<rparr>"

definition applyLinkUpdates :: "DungeonLink \<Rightarrow> LinkUpdates \<Rightarrow> DungeonLink" where
  "applyLinkUpdates l u =
     l\<lparr> connectionType := (case upd_connectionType u of None \<Rightarrow> connectionType l | Some x \<Rightarrow> x),
        description := (case upd_description u of None \<Rightarrow> description l | Some x \<Rightarrow> Some x),
        clueRoomId := (case upd_clueRoomId u of None \<Rightarrow> clueRoomId l | Some x \<Rightarrow> Some x) \<rparr>"

definition updateNode :: "GraphData \<Rightarrow> string \<Rightarrow> NodeUpdates \<Rightarrow> GraphData" where
  "updateNode g nodeId updates =
     g\<lparr> nodes := map (\<lambda>n. if node_id n = nodeId then applyNodeUpdates n updates else n) (nodes g) \<rparr>"

definition updateEdge :: "GraphData \<Rightarrow> string \<Rightarrow> string \<Rightarrow> LinkUpdates \<Rightarrow> GraphData" where
  "updateEdge g src tgt updates =
     (let key = normKey src tgt
      in g\<lparr> links := map (\<lambda>l. if normKey (source l) (target l) = key
                                then applyLinkUpdates l updates else l) (links g) \<rparr>)"

definition addEdge :: "GraphData \<Rightarrow> string \<Rightarrow> string \<Rightarrow> ConnectionType \<Rightarrow> GraphData" where
  "addEdge g src tgt ct =
     (if src = tgt then g
      else let key = normKey src tgt;
               exists = list_ex (\<lambda>l. normKey (source l) (target l) = key) (links g)
           in if exists then g
              else g\<lparr> links := links g @
                     [\<lparr> source = src, target = tgt, connectionType = ct,
                        description = None, clueRoomId = None \<rparr>] \<rparr>)"

section \<open>The connection roll (connectionRoll)\<close>

text \<open>
  \<open>Math.random()\<close> is a number \<open>u\<close> with \<open>0 \<le> u < 1\<close>; every function that draws
  takes its draws as arguments. \<open>rollToConnectionType\<close> is the chain of comparisons on
  the integer \<open>roll = Math.floor(Math.random() * 1000)\<close>.
\<close>

definition unit_draw :: "real \<Rightarrow> bool" where
  "unit_draw u \<longleftrightarrow> 0 \<le> u \<and> u < 1"

definition rollToConnectionType :: "int \<Rightarrow> ConnectionType" where
  "rollToConnectionType roll =
     (if roll < 447 then Open
      else if roll < 670 then Closed
      else if roll < 780 then Trapped
      else if roll < 890 then Hazardous
      else Secret)"

definition randomConnectionType :: "real \<Rightarrow> ConnectionType" where
  "randomConnectionType u = rollToConnectionType \<lfloor>u * 1000\<rfloor>"

section \<open>The six-room generator (biteSizedGenerator)\<close>

text \<open>Each layout is six edges between the node indices 0..5.\<close>

definition LAYOUTS :: "(nat \<times> nat) list list" where
  "LAYOUTS =
    [ [(0, 1), (1, 2), (2, 0), (0, 3), (1, 4), (2, 5)],
      [(0, 1), (1, 2), (2, 0), (0, 3), (0, 4), (4, 5)],
      [(0, 1), (1, 2), (2, 0), (0, 3), (1, 4), (1, 5)],
      [(0, 1), (1, 2), (2, 0), (0, 3), (0, 4), (0, 5)],
      [(0, 1), (1, 2), (2, 3), (3, 0), (0, 4), (2, 5)],
      [(0, 1), (1, 2), (2, 3), (3, 0), (0, 4), (4, 5)],
      [(0, 1), (1, 2), (2, 3), (3, 0), (0, 4), (0, 5)],
      [(0, 1), (1, 2), (2, 3), (3, 4), (4, 0), (0, 5)],
      [(0, 1), (1, 2), (2, 3), (0, 3), (3, 4), (4, 5)],
      [(0, 1), (1, 2), (2, 0), (2, 3), (0, 4), (1, 5)] ]"

definition ROOM_TYPES :: "RoomType list" where
  "ROOM_TYPES = [MonsterTreasure, Monster, Treasure, Empty, Empty, Empty]"

text \<open>\<open>Math.floor(Math.random() * (max - min + 1)) + min\<close>, on the draw \<open>u\<close>.\<close>

definition randomInt :: "int \<Rightarrow> int \<Rightarrow> real \<Rightarrow> int" where
  "randomInt lo hi u = \<lfloor>u * real_of_int (hi - lo + 1)\<rfloor> + lo"

text \<open>
  The draws of one call of the generator, named after the place that consumes them:
  \<open>idDraw k\<close> is the text \<open>Math.random().toString(36).slice(2, 10)\<close> of the \<open>k\<close>-th
  call of \<open>generateId\<close>, \<open>shuffleDraw i\<close> the draw of the shuffle's iteration \<open>i\<close>,
  \<open>connectionDraw k\<close> the draw of the roll for the \<open>k\<close>-th edge. \<open>layoutDraw\<close> is
  consumed only when no layout index is passed.
\<close>

record Draws =
  layoutDraw :: real
  idDraw :: "nat \<Rightarrow> string"
  shuffleDraw :: "nat \<Rightarrow> real"
  specialDraw :: real
  entranceDraw :: real
  secondEntranceDraw :: real
  connectionDraw :: "nat \<Rightarrow> real"

definition draws_ok :: "Draws \<Rightarrow> bool" where
  "draws_ok d \<longleftrightarrow>
     unit_draw (layoutDraw d) \<and> (\<forall>i. unit_draw (shuffleDraw d i)) \<and>
     unit_draw (specialDraw d) \<and> unit_draw (entranceDraw d) \<and>
     unit_draw (secondEntranceDraw d) \<and> (\<forall>k. unit_draw (connectionDraw d k))"

text \<open>
  The Fisher-Yates loop \<open>for (let i = out.length - 1; i > 0; i--)\<close> with the exchange
  \<open>[out[i], out[j]] = [out[j], out[i]]\<close>. A draw in the unit interval gives
  \<open>0 \<le> j \<le> i\<close>, so both indices are inside the array.
\<close>

fun shuffle_loop :: "(nat \<Rightarrow> real) \<Rightarrow> nat \<Rightarrow> 'a list \<Rightarrow> 'a list" where
  "shuffle_loop us 0 out = out"
| "shuffle_loop us (Suc k) out =
     (let i = Suc k;
          j = nat \<lfloor>us i * real (i + 1)\<rfloor>
      in shuffle_loop us k (out[i := out ! j, j := out ! i]))"

definition shuffle :: "(nat \<Rightarrow> real) \<Rightarrow> 'a list \<Rightarrow> 'a list" where
  "shuffle us arr = shuffle_loop us (length arr - 1) arr"

definition generateId :: "string \<Rightarrow> string" where
  "generateId suffix = ''room-'' @ suffix"

text \<open>\<open>Array.prototype.indexOf\<close>: the first index holding the value, or -1.\<close>

fun indexOf :: "'a list \<Rightarrow> 'a \<Rightarrow> int" where
  "indexOf [] x = - 1"
| "indexOf (y # ys) x =
     (if y = x then 0 else (let r = indexOf ys x in if r < 0 then - 1 else r + 1))"

definition newline :: string where
  "newline = [char_of (10 :: nat)]"

text \<open>The apostrophe of the treasure text is U+2019, written here in UTF-8.\<close>

definition getDefaultContent :: "RoomType \<Rightarrow> string" where
  "getDefaultContent rt =
     (case rt of
        MonsterTreasure \<Rightarrow>
          ''**Monster + Treasure**'' @ newline @ newline @
          ''Describe the encounter and the treasure here.''
      | Monster \<Rightarrow> ''**Monster**'' @ newline @ newline @ ''Describe the encounter.''
      | Treasure \<Rightarrow>
          ''**Treasure** (hidden or trapped)'' @ newline @ newline @
          ''Describe how it'' @ map char_of [226, 128, 153 :: nat] @
          ''s hidden or the trap.''
      | Special \<Rightarrow> ''**Special**'' @ newline @ newline @ ''Puzzle, trick, or unusual feature.''
      | Empty \<Rightarrow> ''**Empty**'' @ newline @ newline @ ''Set dressing and any minor details.'')"

text \<open>The decimal text of \<open>i + 1\<close> in the label \<open>Room ${i + 1}\<close>.\<close>

fun digits :: "nat \<Rightarrow> nat \<Rightarrow> string" where
  "digits 0 n = []"
| "digits (Suc fuel) n =
     (if n < 10 then [char_of (48 + n)]
      else digits fuel (n div 10) @ [char_of (48 + n mod 10)])"

definition showNat :: "nat \<Rightarrow> string" where
  "showNat n = digits (Suc n) n"

text \<open>
  The map over the edges of the layout, with the set \<open>linkSet\<close> of keys seen so
  far; \<open>k\<close> counts the edges, for the draw of the connection roll.
\<close>

fun buildLinks ::
  "string list \<Rightarrow> (nat \<Rightarrow> real) \<Rightarrow> nat \<Rightarrow> string set \<Rightarrow> (nat \<times> nat) list \<Rightarrow> error + DungeonLink list"
where
  "buildLinks nodeIds cd k linkSet [] = Inr []"
| "buildLinks nodeIds cd k linkSet ((a, b) # edges) =
     (let idA = nodeIds ! a;
          idB = nodeIds ! b;
          key = normKey idA idB
      in if key \<in> linkSet then Inl DuplicateEdge
         else (case buildLinks nodeIds cd (Suc k) (insert key linkSet) edges of
                 Inl e \<Rightarrow> Inl e
               | Inr ls \<Rightarrow>
                   Inr (\<lparr> source = idA, target = idB,
                          connectionType = randomConnectionType (cd k),
                          description = None, clueRoomId = None \<rparr> # ls)))"

definition stockTypes :: "RoomType list \<Rightarrow> bool \<Rightarrow> RoomType list" where
  "stockTypes shuffledTypes oneSpecial =
     map (\<lambda>(i, t). if t = Empty \<and> oneSpecial \<and> int i = indexOf shuffledTypes Empty
                    then Special else t)
         (enumerate 0 shuffledTypes)"

text \<open>
  \<open>seedLayout ?? randomInt(0, LAYOUTS.length - 1)\<close>, then \<open>LAYOUTS[layoutIndex]\<close>:
  an index outside the catalog reads \<open>undefined\<close>, and \<open>edges.map\<close> throws a
  TypeError. The node indices of every layout are below six, the length of
  \<open>nodeIds\<close> and of \<open>types\<close>.
\<close>

definition generateBiteSizedDungeon :: "int option \<Rightarrow> Draws \<Rightarrow> error + GraphData" where
  "generateBiteSizedDungeon seedLayout d =
     (let layoutIndex = (case seedLayout of
                           None \<Rightarrow> randomInt 0 (int (length LAYOUTS) - 1) (layoutDraw d)
                         | Some s \<Rightarrow> s);
          nodeIds = map (\<lambda>k. generateId (idDraw d k)) [0..<6];
          shuffledTypes = shuffle (shuffleDraw d) ROOM_TYPES;
          oneSpecial = (randomInt 0 2 (specialDraw d) = 0);
          types = stockTypes shuffledTypes oneSpecial;
          entranceIndex = randomInt 0 5 (entranceDraw d);
          secondEntrance = randomInt 0 5 (secondEntranceDraw d);
          entrances = {entranceIndex, secondEntrance};
          nodes = map (\<lambda>(i, ident).
                          \<lparr> node_id = ident, label = ''Room '' @ showNat (i + 1),
                            roomType = types ! i, content = getDefaultContent (types ! i),
                            entrance = Some (int i \<in> entrances), parentNodeId = None \<rparr>)
                      (enumerate 0 nodeIds)
      in if layoutIndex < 0 \<or> int (length LAYOUTS) \<le> layoutIndex then Inl TypeError
         else (case buildLinks nodeIds (connectionDraw d) 0 {} (LAYOUTS ! nat layoutIndex) of
                 Inl e \<Rightarrow> Inl e
               | Inr ls \<Rightarrow> Inr \<lparr> nodes = nodes, links = ls \<rparr>))"

section \<open>Attaching and exploding (graphUtils)\<close>

text \<open>
  \<open>g.nodes.find(...)\<close> is \<open>find\<close>; \<open>sub.nodes[0]\<close> is the first of the six generated
  rooms. \<open>corridorDraw\<close> is the draw of the roll for the connecting link.
\<close>

definition attachDungeon :: "GraphData \<Rightarrow> string \<Rightarrow> Draws \<Rightarrow> real \<Rightarrow> error + GraphData" where
  "attachDungeon g nodeId d corridorDraw =
     (case find (\<lambda>n. node_id n = nodeId) (nodes g) of
        None \<Rightarrow> Inr g
      | Some node \<Rightarrow>
          (case generateBiteSizedDungeon None d of
             Inl e \<Rightarrow> Inl e
           | Inr sub \<Rightarrow>
               (let bridgeNodeId = node_id (nodes sub ! 0);
                    corridorType = randomConnectionType corridorDraw;
                    newNodes = map (\<lambda>n. n\<lparr> parentNodeId := Some nodeId, entrance := Some False \<rparr>)
                                   (nodes sub);
                    newLinks = map (\<lambda>l. l\<lparr> source := source l, target := target l \<rparr>) (links sub);
                    connectingLink = \<lparr> source = nodeId, target = bridgeNodeId,
                                       connectionType = corridorType,
                                       description = None, clueRoomId = None \<rparr>
                in Inr \<lparr> nodes = nodes g @ newNodes,
                         links = links g @ newLinks @ [connectingLink] \<rparr>)))"

text \<open>
  \<open>label\<close> and \<open>content\<close> of a room are strings, never undefined, so
  \<open>node.label ?? n.label\<close> is \<open>node.label\<close>. The spreads of \<open>description\<close> and
  \<open>clueRoomId\<close> copy the property when the old link has it and leave it absent
  otherwise.
\<close>

definition reattach :: "string \<Rightarrow> string \<Rightarrow> DungeonLink \<Rightarrow> DungeonLink" where
  "reattach nodeId bridgeNodeId oldLink =
     (let external = (if source oldLink = nodeId then target oldLink else source oldLink)
      in \<lparr> source = bridgeNodeId, target = external,
           connectionType = connectionType oldLink,
           description = description oldLink,
           clueRoomId = clueRoomId oldLink \<rparr>)"

definition replaceNodeWithDungeon ::
  "GraphData \<Rightarrow> string \<Rightarrow> Draws \<Rightarrow> error + (GraphData \<times> string)"
where
  "replaceNodeWithDungeon g nodeId d =
     (case find (\<lambda>n. node_id n = nodeId) (nodes g) of
        None \<Rightarrow> Inr (g, nodeId)
      | Some node \<Rightarrow>
          (let outgoingEdges = filter (\<lambda>l. source l = nodeId \<or> target l = nodeId) (links g)
           in case generateBiteSizedDungeon None d of
                Inl e \<Rightarrow> Inl e
              | Inr sub \<Rightarrow>
                  (let bridgeNodeId = node_id (nodes sub ! 0);
                       newNodes = map (\<lambda>n.
                           let isBridge = (node_id n = bridgeNodeId);
                               n1 = n\<lparr> parentNodeId := Some nodeId,
                                       entrance := (if isBridge then entrance node else Some False) \<rparr>
                           in if isBridge then n1\<lparr> label := label node, content := content node \<rparr>
                              else n1) (nodes sub);
                       newLinks = map (\<lambda>l. l\<lparr> source := source l, target := target l \<rparr>) (links sub);
                       nodesWithoutOld = filter (\<lambda>n. node_id n \<noteq> nodeId) (nodes g);
                       linksWithoutOld = filter (\<lambda>l. source l \<noteq> nodeId \<and> target l \<noteq> nodeId) (links g);
                       reattachLinks = map (reattach nodeId bridgeNodeId) outgoingEdges
                   in Inr (\<lparr> nodes = nodesWithoutOld @ newNodes,
                             links = linksWithoutOld @ newLinks @ reattachLinks \<rparr>,
                           bridgeNodeId))))"

section \<open>Notions the properties are stated in\<close>

text \<open>The identifiers minted by one call of the generator, in order.\<close>

definition freshIds :: "Draws \<Rightarrow> string list" where
  "freshIds d = map (\<lambda>k. generateId (idDraw d k)) [0..<6]"

definition link_pair :: "DungeonLink \<Rightarrow> string \<times> string" where
  "link_pair l = (source l, target l)"

definition touches :: "string \<Rightarrow> DungeonLink \<Rightarrow> bool" where
  "touches r l \<longleftrightarrow> source l = r \<or> target l = r"

definition other_end :: "string \<Rightarrow> DungeonLink \<Rightarrow> string" where
  "other_end r l = (if source l = r then target l else source l)"

text \<open>
  A list of pairs is a multigraph. \<open>link_rel\<close> is its adjacency, in both directions;
  two vertices are \<open>joined\<close> when a path of edges leads from one to the other; a
  graph on the vertices \<open>vs\<close> is connected when any two of them are joined.
\<close>

definition link_rel :: "('a \<times> 'a) list \<Rightarrow> ('a \<times> 'a) set" where
  "link_rel es = set es \<union> (set es)\<inverse>"

definition joined :: "('a \<times> 'a) list \<Rightarrow> 'a \<Rightarrow> 'a \<Rightarrow> bool" where
  "joined es a b \<longleftrightarrow> (a, b) \<in> (link_rel es)\<^sup>*"

definition connected_graph :: "'a list \<Rightarrow> ('a \<times> 'a) list \<Rightarrow> bool" where
  "connected_graph vs es \<longleftrightarrow> (\<forall>a \<in> set vs. \<forall>b \<in> set vs. joined es a b)"

text \<open>
  A multigraph has a cycle exactly when one of its edges can be deleted (that one
  occurrence, at its position in the list) with its two ends still joined by the
  rest: the path closing the cycle. A self-loop and a pair of parallel edges are
  cycles.
\<close>

definition remove_nth :: "nat \<Rightarrow> 'a list \<Rightarrow> 'a list" where
  "remove_nth i xs = take i xs @ drop (Suc i) xs"

definition has_cycle :: "('a \<times> 'a) list \<Rightarrow> bool" where
  "has_cycle es \<longleftrightarrow>
     (\<exists>i < length es. joined (remove_nth i es) (fst (es ! i)) (snd (es ! i)))"

definition norm_pair :: "nat \<times> nat \<Rightarrow> nat \<times> nat" where
  "norm_pair e = (min (fst e) (snd e), max (fst e) (snd e))"

text \<open>
  An executable search, used to decide the catalog: one pass of \<open>spread\<close> over the
  edges adds the far end of every edge that has one end among the vertices seen.
\<close>

fun spread :: "('a \<times> 'a) list \<Rightarrow> 'a list \<Rightarrow> 'a list" where
  "spread [] seen = seen"
| "spread ((a, b) # es) seen =
     spread es (if a \<in> set seen \<and> b \<notin> set seen then b # seen
                else if b \<in> set seen \<and> a \<notin> set seen then a # seen
                else seen)"

primrec spreadN :: "nat \<Rightarrow> ('a \<times> 'a) list \<Rightarrow> 'a list \<Rightarrow> 'a list" where
  "spreadN 0 es seen = seen"
| "spreadN (Suc n) es seen = spreadN n es (spread es seen)"

definition layout_ok :: "(nat \<times> nat) list \<Rightarrow> bool" where
  "layout_ok L \<longleftrightarrow>
     length L = 6 \<and>
     set (map fst L) \<union> set (map snd L) = {0..<6} \<and>
     set [0..<6] \<subseteq> set (spreadN 5 L [0]) \<and>
     snd (L ! 0) \<in> set (spreadN 5 (remove_nth 0 L) [fst (L ! 0)]) \<and>
     distinct (map norm_pair L)"

text \<open>The room types of one call: the shuffled canonical six, with the upgrade.\<close>

definition stockedTypes :: "Draws \<Rightarrow> RoomType list" where
  "stockedTypes d =
     stockTypes (shuffle (shuffleDraw d) ROOM_TYPES) (randomInt 0 2 (specialDraw d) = 0)"


text \<open>
  The texts \<open>Math.random().toString(36).slice(2, 10)\<close> are digits in base 36 and
  never contain the separator of the keys; \<open>ids_ok\<close> says so, and that the six
  identifiers of a call differ from each other.
\<close>

definition ids_ok :: "Draws \<Rightarrow> bool" where
  "ids_ok d \<longleftrightarrow>
     distinct (map (idDraw d) [0..<6]) \<and> (\<forall>k < 6. CHR ''-'' \<notin> set (idDraw d k))"

text \<open>A sample of draws, for concrete runs: the special draw is left open.\<close>

definition sampleDraws :: "real \<Rightarrow> Draws" where
  "sampleDraws u =
     \<lparr> layoutDraw = 0, idDraw = (\<lambda>k. replicate (Suc k) CHR ''x''),
       shuffleDraw = (\<lambda>i. 9 / 10), specialDraw = u,
       entranceDraw = 0, secondEntranceDraw = 1 / 2, connectionDraw = (\<lambda>k. 1 / 2) \<rparr>"


text \<open>Sample graphs for concrete runs, and every identifier a graph mentions.\<close>

definition room :: "string \<Rightarrow> DungeonNode" where
  "room ident = \<lparr> node_id = ident, label = ''Room'', roomType = Empty,
                  content = [], entrance = Some True, parentNodeId = None \<rparr>"

definition clueGraph :: GraphData where
  "clueGraph =
     \<lparr> nodes = [room ''room-r'', room ''room-a''],
       links = [\<lparr> source = ''room-r'', target = ''room-a'', connectionType = Secret,
                  description = None, clueRoomId = Some ''room-r'' \<rparr>] \<rparr>"

definition oneRoom :: GraphData where
  "oneRoom = \<lparr> nodes = [room ''room-a''], links = [] \<rparr>"

definition graph_ids :: "GraphData \<Rightarrow> string set" where
  "graph_ids g = node_id ` set (nodes g) \<union> source ` set (links g) \<union> target ` set (links g)"


section \<open>Bridge detection (DungeonGraph)\<close>

text \<open>
  The \<open>Map<string, string[]>\<close> of adjacency lists is an association list; the
  \<open>Set<string>\<close> of node identifiers is the list of its elements, the sets
  \<open>visited\<close> and \<open>bridgeKeys\<close> are sets. \<open>adj.get(a)!.push(b)\<close> throws a TypeError
  when \<open>a\<close> is no key of the map: \<open>None\<close>.
\<close>

type_synonym adjacency = "(string \<times> string list) list"

definition adjPush :: "adjacency \<Rightarrow> string \<Rightarrow> string \<Rightarrow> adjacency option" where
  "adjPush adj a b =
     (case map_of adj a of
        None \<Rightarrow> None
      | Some ns \<Rightarrow> Some (AList.update a (ns @ [b]) adj))"

text \<open>The inner \<open>normLinks.forEach\<close>: every link joining the same unordered pair as
  \<open>(s, t)\<close> is skipped, the others are entered in both directions.\<close>

fun buildAdj :: "string \<times> string \<Rightarrow> (string \<times> string) list \<Rightarrow> adjacency \<Rightarrow> adjacency option" where
  "buildAdj (s, t) [] adj = Some adj"
| "buildAdj (s, t) ((es, et) # rest) adj =
     (if (es = s \<and> et = t) \<or> (es = t \<and> et = s) then buildAdj (s, t) rest adj
      else (case adjPush adj es et of
              None \<Rightarrow> None
            | Some adj1 \<Rightarrow>
                (case adjPush adj1 et es of
                   None \<Rightarrow> None
                 | Some adj2 \<Rightarrow> buildAdj (s, t) rest adj2)))"

text \<open>The \<open>for (const nid of adj.get(id) ?? [])\<close> of the search.\<close>

fun visitNeighbours :: "string list \<Rightarrow> string set \<times> string list \<Rightarrow> string set \<times> string list" where
  "visitNeighbours [] (visited, queue) = (visited, queue)"
| "visitNeighbours (nid # ns) (visited, queue) =
     (if nid \<notin> visited then visitNeighbours ns (insert nid visited, queue @ [nid])
      else visitNeighbours ns (visited, queue))"

definition adjGet :: "adjacency \<Rightarrow> string \<Rightarrow> string list" where
  "adjGet adj ident = (case map_of adj ident of None \<Rightarrow> [] | Some ns \<Rightarrow> ns)"

definition adjUniverse :: "adjacency \<Rightarrow> string set" where
  "adjUniverse adj = (\<Union>p \<in> set adj. set (snd p))"

text \<open>
  The \<open>while (queue.length)\<close> loop ends: a step either visits a new identifier,
  one of the finitely many in the adjacency lists, or leaves \<open>visited\<close> as it is
  and shortens the queue.
\<close>

lemma visitNeighbours_sets:
  "visitNeighbours ns (v, q) = (v', q') \<Longrightarrow>
     v' = v \<union> set ns \<and> set q' = set q \<union> (set ns - v) \<and> (v' = v \<longrightarrow> q' = q)"
proof (induction ns arbitrary: v q)
  case Nil
  then show ?case by simp
next
  case (Cons nid ns)
  show ?case
  proof (cases "nid \<in> v")
    case True
    then have "visitNeighbours ns (v, q) = (v', q')" using Cons.prems by simp
    from Cons.IH[OF this] show ?thesis using True by auto
  next
    case False
    then have "visitNeighbours ns (insert nid v, q @ [nid]) = (v', q')" using Cons.prems by simp
    from Cons.IH[OF this] show ?thesis using False by auto
  qed
qed

lemma adjGet_universe: "set (adjGet adj ident) \<subseteq> adjUniverse adj"
proof (cases "map_of adj ident")
  case None
  then show ?thesis by (simp add: adjGet_def)
next
  case (Some ns)
  then have "(ident, ns) \<in> set adj" by (rule map_of_SomeD)
  then show ?thesis using Some by (force simp: adjGet_def adjUniverse_def)
qed

lemma visit_decreases:
  assumes "visitNeighbours (adjGet adj ident) (visited, queue) = (v', q')"
  shows "card (adjUniverse adj - v') < card (adjUniverse adj - visited) \<or>
         (card (adjUniverse adj - v') = card (adjUniverse adj - visited) \<and>
          length q' < length (ident # queue))"
proof -
  note r = visitNeighbours_sets[OF assms]
  have fin: "finite (adjUniverse adj - visited)" by (simp add: adjUniverse_def)
  show ?thesis
  proof (cases "v' = visited")
    case True
    then show ?thesis using r by simp
  next
    case False
    then obtain x where x: "x \<in> set (adjGet adj ident)" "x \<notin> visited" using r by auto
    then have xu: "x \<in> adjUniverse adj - visited" using adjGet_universe by blast
    have "x \<notin> adjUniverse adj - v'" using r x by simp
    moreover have "adjUniverse adj - v' \<subseteq> adjUniverse adj - visited" using r by auto
    ultimately have "adjUniverse adj - v' \<subset> adjUniverse adj - visited" using xu by blast
    then show ?thesis using fin by (simp add: psubset_card_mono)
  qed
qed

function bfs :: "adjacency \<Rightarrow> string set \<Rightarrow> string list \<Rightarrow> string set" where
  "bfs adj visited [] = visited"
| "bfs adj visited (ident # queue) =
     (case visitNeighbours (adjGet adj ident) (visited, queue) of
        (visited', queue') \<Rightarrow> bfs adj visited' queue')"
  by pat_completeness auto
termination
proof (relation "measures [\<lambda>(adj, visited, queue). card (adjUniverse adj - visited),
                           \<lambda>(adj, visited, queue). length queue]", goal_cases)
  case 1
  show ?case by simp
next
  case (2 adj visited ident queue xa y)
  then have "visitNeighbours (adjGet adj ident) (visited, queue) = (xa, y)" by simp
  from visit_decreases[OF this] show ?case by auto
qed

text \<open>One iteration of the outer \<open>normLinks.forEach\<close>, and the loop.\<close>

definition bridgeStep ::
  "string list \<Rightarrow> (string \<times> string) list \<Rightarrow> string \<times> string \<Rightarrow> string set \<Rightarrow> error + string set"
where
  "bridgeStep nodeIds normLinks e bridgeKeys =
     (case buildAdj e normLinks (map (\<lambda>ident. (ident, [])) nodeIds) of
        None \<Rightarrow> Inl TypeError
      | Some adj \<Rightarrow>
          (let visited = bfs adj {fst e} [fst e]
           in Inr (if snd e \<notin> visited then insert (normKey (fst e) (snd e)) bridgeKeys
                   else bridgeKeys)))"

fun bridgeLoop ::
  "string list \<Rightarrow> (string \<times> string) list \<Rightarrow> (string \<times> string) list \<Rightarrow> string set \<Rightarrow> error + string set"
where
  "bridgeLoop nodeIds normLinks [] bridgeKeys = Inr bridgeKeys"
| "bridgeLoop nodeIds normLinks (e # rest) bridgeKeys =
     (case bridgeStep nodeIds normLinks e bridgeKeys of
        Inl err \<Rightarrow> Inl err
      | Inr bridgeKeys' \<Rightarrow> bridgeLoop nodeIds normLinks rest bridgeKeys')"

definition getBridgeLinkKeys :: "string list \<Rightarrow> (string \<times> string) list \<Rightarrow> error + string set" where
  "getBridgeLinkKeys nodeIds normLinks = bridgeLoop nodeIds normLinks normLinks {}"

text \<open>Two links join the same unordered pair; a list of links without every link
  joining the pair of \<open>e\<close>; the successor relation of an adjacency map.\<close>

definition same_pair :: "'a \<times> 'a \<Rightarrow> 'a \<times> 'a \<Rightarrow> bool" where
  "same_pair e e' \<longleftrightarrow>
     (fst e' = fst e \<and> snd e' = snd e) \<or> (fst e' = snd e \<and> snd e' = fst e)"

definition without_pair :: "'a \<times> 'a \<Rightarrow> ('a \<times> 'a) list \<Rightarrow> ('a \<times> 'a) list" where
  "without_pair e es = filter (\<lambda>e'. \<not> same_pair e e') es"

definition adj_rel :: "adjacency \<Rightarrow> (string \<times> string) set" where
  "adj_rel adj = {(a, b). b \<in> set (adjGet adj a)}"

text \<open>
  The roll \<open>j = Math.floor(Math.random() * (i + 1))\<close> of the shuffle's iteration
  \<open>i\<close>, and the exchange of two positions.
\<close>

definition shuffleRoll :: "(nat \<Rightarrow> real) \<Rightarrow> nat \<Rightarrow> nat" where
  "shuffleRoll us i = nat \<lfloor>us i * real (i + 1)\<rfloor>"

definition exchange :: "nat \<Rightarrow> nat \<Rightarrow> 'a list \<Rightarrow> 'a list" where
  "exchange i j out = out[i := out ! j, j := out ! i]"


section \<open>Depths from the entrances (DungeonGraph)\<close>















section \<open>Adding a connection twice\<close>

lemma normKey_commute: "normKey a b = normKey b a"
  by (auto simp: normKey_def)

text \<open>
  C8. Adding a connection between the same unordered pair a second time, in either
  direction and with any category, gives the graph of the first addition; adding a
  connection from a room to itself gives the graph back.
\<close>

theorem addEdge_idempotent:
  "addEdge (addEdge g a b t) a b t' = addEdge g a b t \<and>
   addEdge (addEdge g a b t) b a t' = addEdge g a b t \<and>
   addEdge g a a t = g"
  by (auto simp: addEdge_def Let_def normKey_commute list_ex_iff)


section \<open>The connection roll's distribution\<close>

lemma roll_Open: "{r. 0 \<le> r \<and> r < 1000 \<and> rollToConnectionType r = Open} = {0..<447}"
  by (auto simp: rollToConnectionType_def split: if_splits)

lemma roll_Closed: "{r. 0 \<le> r \<and> r < 1000 \<and> rollToConnectionType r = Closed} = {447..<670}"
  by (auto simp: rollToConnectionType_def split: if_splits)

lemma roll_Trapped: "{r. 0 \<le> r \<and> r < 1000 \<and> rollToConnectionType r = Trapped} = {670..<780}"
  by (auto simp: rollToConnectionType_def split: if_splits)

lemma roll_Hazardous: "{r. 0 \<le> r \<and> r < 1000 \<and> rollToConnectionType r = Hazardous} = {780..<890}"
  by (auto simp: rollToConnectionType_def split: if_splits)

lemma roll_Secret: "{r. 0 \<le> r \<and> r < 1000 \<and> rollToConnectionType r = Secret} = {890..<1000}"
  by (auto simp: rollToConnectionType_def split: if_splits)

lemma roll_range: "unit_draw u \<Longrightarrow> 0 \<le> \<lfloor>u * 1000\<rfloor> \<and> \<lfloor>u * 1000\<rfloor> < 1000"
  unfolding unit_draw_def by (simp add: floor_less_iff)

lemma roll_of_grid: "0 \<le> r \<Longrightarrow> randomConnectionType (real_of_int r / 1000) = rollToConnectionType r"
  by (simp add: randomConnectionType_def)

lemma grid_eq:
  "{r. 0 \<le> r \<and> r < 1000 \<and> randomConnectionType (real_of_int r / 1000) = c} =
   {r. 0 \<le> r \<and> r < 1000 \<and> rollToConnectionType r = c}"
proof (rule Collect_cong)
  fix r :: int
  show "(0 \<le> r \<and> r < 1000 \<and> randomConnectionType (real_of_int r / 1000) = c) =
        (0 \<le> r \<and> r < 1000 \<and> rollToConnectionType r = c)"
  proof (cases "0 \<le> r")
    case True
    show ?thesis unfolding roll_of_grid[OF True] ..
  next
    case False
    then show ?thesis by simp
  qed
qed

lemma draw_intervals:
  assumes "unit_draw u"
  shows "(randomConnectionType u = Open \<longleftrightarrow> u < 447 / 1000)"
    and "(randomConnectionType u = Closed \<longleftrightarrow> 447 / 1000 \<le> u \<and> u < 670 / 1000)"
    and "(randomConnectionType u = Trapped \<longleftrightarrow> 670 / 1000 \<le> u \<and> u < 780 / 1000)"
    and "(randomConnectionType u = Hazardous \<longleftrightarrow> 780 / 1000 \<le> u \<and> u < 890 / 1000)"
    and "(randomConnectionType u = Secret \<longleftrightarrow> 890 / 1000 \<le> u)"
proof -
  have f: "\<And>n :: int. (\<lfloor>u * 1000\<rfloor> < n) = (u < real_of_int n / 1000)"
    by (simp add: floor_less_iff pos_less_divide_eq)
  have a: "(\<lfloor>u * 1000\<rfloor> < 447) = (u < 447 / 1000)" using f[of 447] by simp
  have b: "(\<lfloor>u * 1000\<rfloor> < 670) = (u < 670 / 1000)" using f[of 670] by simp
  have c: "(\<lfloor>u * 1000\<rfloor> < 780) = (u < 780 / 1000)" using f[of 780] by simp
  have d: "(\<lfloor>u * 1000\<rfloor> < 890) = (u < 890 / 1000)" using f[of 890] by simp
  show "(randomConnectionType u = Open \<longleftrightarrow> u < 447 / 1000)"
    unfolding randomConnectionType_def rollToConnectionType_def a b c d by auto
  show "(randomConnectionType u = Closed \<longleftrightarrow> 447 / 1000 \<le> u \<and> u < 670 / 1000)"
    unfolding randomConnectionType_def rollToConnectionType_def a b c d by auto
  show "(randomConnectionType u = Trapped \<longleftrightarrow> 670 / 1000 \<le> u \<and> u < 780 / 1000)"
    unfolding randomConnectionType_def rollToConnectionType_def a b c d by auto
  show "(randomConnectionType u = Hazardous \<longleftrightarrow> 780 / 1000 \<le> u \<and> u < 890 / 1000)"
    unfolding randomConnectionType_def rollToConnectionType_def a b c d by auto
  show "(randomConnectionType u = Secret \<longleftrightarrow> 890 / 1000 \<le> u)"
    unfolding randomConnectionType_def rollToConnectionType_def a b c d by auto
qed

text \<open>
  C9. A call draws once: the roll \<open>Math.floor(Math.random() * 1000)\<close> of the draw
  \<open>u\<close> is one of the integers 0..999, and the category returned is a function of
  that roll alone, so calls are independent and identically distributed. The draws
  that give open are those below 0.447, closed those from 0.447 up to 0.670, trapped
  up to 0.780, hazardous up to 0.890, secret the rest: intervals of length 0.447,
  0.223, 0.110, 0.110 and 0.110, which sum to 1. Counted on the thousand equally
  likely rolls (the draws \<open>r / 1000\<close>), 447 give open, 223 closed and 110 each of
  the other three, each share within half a percentage point of 45%, 22%, 11%.
\<close>

theorem randomConnectionType_distribution:
  assumes "unit_draw u"
  shows "randomConnectionType u = rollToConnectionType \<lfloor>u * 1000\<rfloor> \<and>
     0 \<le> \<lfloor>u * 1000\<rfloor> \<and> \<lfloor>u * 1000\<rfloor> < 1000 \<and>
     (randomConnectionType u = Open \<longleftrightarrow> u < 447 / 1000) \<and>
     (randomConnectionType u = Closed \<longleftrightarrow> 447 / 1000 \<le> u \<and> u < 670 / 1000) \<and>
     (randomConnectionType u = Trapped \<longleftrightarrow> 670 / 1000 \<le> u \<and> u < 780 / 1000) \<and>
     (randomConnectionType u = Hazardous \<longleftrightarrow> 780 / 1000 \<le> u \<and> u < 890 / 1000) \<and>
     (randomConnectionType u = Secret \<longleftrightarrow> 890 / 1000 \<le> u) \<and>
     card {r. 0 \<le> r \<and> r < 1000 \<and> randomConnectionType (real_of_int r / 1000) = Open} = 447 \<and>
     card {r. 0 \<le> r \<and> r < 1000 \<and> randomConnectionType (real_of_int r / 1000) = Closed} = 223 \<and>
     card {r. 0 \<le> r \<and> r < 1000 \<and> randomConnectionType (real_of_int r / 1000) = Trapped} = 110 \<and>
     card {r. 0 \<le> r \<and> r < 1000 \<and> randomConnectionType (real_of_int r / 1000) = Hazardous} = 110 \<and>
     card {r. 0 \<le> r \<and> r < 1000 \<and> randomConnectionType (real_of_int r / 1000) = Secret} = 110 \<and>
     \<bar>real (card {r. 0 \<le> r \<and> r < 1000 \<and> randomConnectionType (real_of_int r / 1000) = Open}) / 1000
        - 45 / 100\<bar> \<le> 1 / 200 \<and>
     \<bar>real (card {r. 0 \<le> r \<and> r < 1000 \<and> randomConnectionType (real_of_int r / 1000) = Closed}) / 1000
        - 22 / 100\<bar> \<le> 1 / 200 \<and>
     \<bar>real (card {r. 0 \<le> r \<and> r < 1000 \<and> randomConnectionType (real_of_int r / 1000) = Trapped}) / 1000
        - 11 / 100\<bar> \<le> 1 / 200 \<and>
     \<bar>real (card {r. 0 \<le> r \<and> r < 1000 \<and> randomConnectionType (real_of_int r / 1000) = Hazardous}) / 1000
        - 11 / 100\<bar> \<le> 1 / 200 \<and>
     \<bar>real (card {r. 0 \<le> r \<and> r < 1000 \<and> randomConnectionType (real_of_int r / 1000) = Secret}) / 1000
        - 11 / 100\<bar> \<le> 1 / 200"
proof -
  note iv = draw_intervals[OF assms]
  have r: "0 \<le> \<lfloor>u * 1000\<rfloor> \<and> \<lfloor>u * 1000\<rfloor> < 1000" by (rule roll_range[OF assms])
  have c: "card {r. 0 \<le> r \<and> r < 1000 \<and> randomConnectionType (real_of_int r / 1000) = Open} = 447"
    "card {r. 0 \<le> r \<and> r < 1000 \<and> randomConnectionType (real_of_int r / 1000) = Closed} = 223"
    "card {r. 0 \<le> r \<and> r < 1000 \<and> randomConnectionType (real_of_int r / 1000) = Trapped} = 110"
    "card {r. 0 \<le> r \<and> r < 1000 \<and> randomConnectionType (real_of_int r / 1000) = Hazardous} = 110"
    "card {r. 0 \<le> r \<and> r < 1000 \<and> randomConnectionType (real_of_int r / 1000) = Secret} = 110"
    unfolding grid_eq roll_Open roll_Closed roll_Trapped roll_Hazardous roll_Secret by simp_all
  show ?thesis
    apply (intro conjI)
                apply (simp add: randomConnectionType_def)
               apply (rule r[THEN conjunct1])
              apply (rule r[THEN conjunct2])
             apply (rule iv(1))
            apply (rule iv(2))
           apply (rule iv(3))
          apply (rule iv(4))
         apply (rule iv(5))
        apply (rule c(1))
       apply (rule c(2))
      apply (rule c(3))
     apply (rule c(4))
        apply (rule c(5))
       apply (simp add: c(1))
      apply (simp add: c(2))
     apply (simp add: c(3))
    apply (simp add: c(4))
   apply (simp add: c(5))
  done
qed

theorem randomConnectionType_distribution_witness:
  "unit_draw (1 / 2) \<and> randomConnectionType (1 / 2) = Closed \<and>
   randomConnectionType (1 / 2) = rollToConnectionType \<lfloor>(1 / 2 :: real) * 1000\<rfloor> \<and>
   (randomConnectionType (1 / 2) = Closed \<longleftrightarrow>
      447 / 1000 \<le> (1 / 2 :: real) \<and> (1 / 2 :: real) < 670 / 1000)"
proof -
  have u: "unit_draw (1 / 2)" by (simp add: unit_draw_def)
  note t = randomConnectionType_distribution[OF u]
  have e: "randomConnectionType (1 / 2) = rollToConnectionType \<lfloor>(1 / 2 :: real) * 1000\<rfloor>"
    by (rule t[THEN conjunct1])
  have i: "(randomConnectionType (1 / 2) = Closed \<longleftrightarrow>
      447 / 1000 \<le> (1 / 2 :: real) \<and> (1 / 2 :: real) < 670 / 1000)"
    by (rule t[THEN conjunct2, THEN conjunct2, THEN conjunct2, THEN conjunct2, THEN conjunct1])
  have c: "randomConnectionType (1 / 2) = Closed" unfolding i by simp
  show ?thesis using u c e i by (intro conjI)
qed

section \<open>Paths in a multigraph\<close>

lemma joined_refl: "joined es a a"
  by (simp add: joined_def)

lemma joined_trans: "joined es a b \<Longrightarrow> joined es b c \<Longrightarrow> joined es a c"
  by (auto simp: joined_def)

lemma link_rel_sym: "sym (link_rel es)"
  by (auto simp: link_rel_def sym_def)

lemma joined_sym: "joined es a b \<Longrightarrow> joined es b a"
  unfolding joined_def using link_rel_sym[of es] by (metis sym_rtrancl symD)

lemma joined_edge: "(a, b) \<in> set es \<Longrightarrow> joined es a b"
  by (auto simp: joined_def link_rel_def)

lemma spread_sound:
  "set es \<subseteq> set E \<Longrightarrow> \<forall>x \<in> set seen. joined E s x \<Longrightarrow>
     \<forall>x \<in> set (spread es seen). joined E s x"
proof (induction es seen rule: spread.induct)
  case (1 seen)
  then show ?case by simp
next
  case (2 a b es seen)
  let ?seen = "if a \<in> set seen \<and> b \<notin> set seen then b # seen
                else if b \<in> set seen \<and> a \<notin> set seen then a # seen
                else seen"
  have ab: "joined E a b" "joined E b a"
    using 2(2) by (auto intro: joined_edge joined_sym)
  have "\<forall>x \<in> set ?seen. joined E s x"
    using 2(3) ab by (auto intro: joined_trans)
  moreover have "set es \<subseteq> set E" using 2(2) by simp
  ultimately have "\<forall>x \<in> set (spread es ?seen). joined E s x"
    by (rule 2(1)[rotated])
  then show ?case by simp
qed

lemma spreadN_sound:
  "\<forall>x \<in> set seen. joined E s x \<Longrightarrow> \<forall>x \<in> set (spreadN n E seen). joined E s x"
proof (induction n arbitrary: seen)
  case 0
  then show ?case by simp
next
  case (Suc n)
  have "\<forall>x \<in> set (spread E seen). joined E s x"
    by (rule spread_sound) (use Suc.prems in auto)
  then show ?case using Suc.IH by simp
qed

section \<open>The layout catalog\<close>

lemma LAYOUTS_ok: "\<forall>L \<in> set LAYOUTS. layout_ok L"
  by code_simp

lemma layout_ok_connected:
  assumes "layout_ok L"
  shows "connected_graph [0..<6] L"
proof -
  have "\<forall>x \<in> set (spreadN 5 L [0]). joined L 0 x"
    by (rule spreadN_sound) (simp add: joined_refl)
  then have from0: "\<forall>x \<in> set [0..<6]. joined L 0 x"
    using assms unfolding layout_ok_def by blast
  show ?thesis
    unfolding connected_graph_def
    using from0 by (blast intro: joined_trans joined_sym)
qed

lemma layout_ok_cycle:
  assumes "layout_ok L"
  shows "has_cycle L"
proof -
  have "\<forall>x \<in> set (spreadN 5 (remove_nth 0 L) [fst (L ! 0)]).
          joined (remove_nth 0 L) (fst (L ! 0)) x"
    by (rule spreadN_sound) (simp add: joined_refl)
  then have "joined (remove_nth 0 L) (fst (L ! 0)) (snd (L ! 0))"
    using assms unfolding layout_ok_def by blast
  moreover have "0 < length L" using assms by (simp add: layout_ok_def)
  ultimately show ?thesis unfolding has_cycle_def by blast
qed

text \<open>
  C7. Every topology of the catalog has six edges, whose ends are exactly the
  positions 0..5; it is connected; it has a cycle; and no unordered pair of indices
  occurs twice among its edges.
\<close>

theorem LAYOUTS_wellformed:
  "\<forall>L \<in> set LAYOUTS.
     length L = 6 \<and>
     set (map fst L) \<union> set (map snd L) = {0..<6} \<and>
     connected_graph [0..<6] L \<and>
     has_cycle L \<and>
     distinct (map norm_pair L)"
proof
  fix L assume "L \<in> set LAYOUTS"
  then have ok: "layout_ok L" using LAYOUTS_ok by blast
  then show "length L = 6 \<and> set (map fst L) \<union> set (map snd L) = {0..<6} \<and>
     connected_graph [0..<6] L \<and> has_cycle L \<and> distinct (map norm_pair L)"
    using layout_ok_connected[OF ok] layout_ok_cycle[OF ok]
    by (simp add: layout_ok_def)
qed

theorem LAYOUTS_wellformed_witness:
  "LAYOUTS ! 7 \<in> set LAYOUTS \<and>
   length (LAYOUTS ! 7) = 6 \<and>
   set (map fst (LAYOUTS ! 7)) \<union> set (map snd (LAYOUTS ! 7)) = {0..<6} \<and>
   connected_graph [0..<6] (LAYOUTS ! 7) \<and>
   has_cycle (LAYOUTS ! 7) \<and>
   distinct (map norm_pair (LAYOUTS ! 7))"
proof -
  have m: "LAYOUTS ! 7 \<in> set LAYOUTS" by (simp add: LAYOUTS_def)
  show ?thesis using m LAYOUTS_wellformed m by blast
qed


section \<open>Draws, the shuffle and the stocking\<close>

lemma randomInt_range:
  assumes "unit_draw u" "lo \<le> hi"
  shows "lo \<le> randomInt lo hi u \<and> randomInt lo hi u \<le> hi"
proof -
  define n where "n = hi - lo + 1"
  have pos: "0 < real_of_int n" using assms by (simp add: n_def)
  have "0 \<le> u * real_of_int n" using assms pos by (simp add: unit_draw_def)
  hence a: "0 \<le> \<lfloor>u * real_of_int n\<rfloor>" by simp
  have "u * real_of_int n < real_of_int n"
    using assms pos by (simp add: unit_draw_def)
  hence b: "\<lfloor>u * real_of_int n\<rfloor> < n" by (simp only: floor_less_iff)
  show ?thesis using a b unfolding randomInt_def n_def[symmetric] by (simp add: n_def)
qed

lemma shuffle_index:
  assumes "unit_draw u"
  shows "nat \<lfloor>u * real (i + 1)\<rfloor> \<le> i"
proof -
  have "u * real (i + 1) < real (i + 1)" using assms by (simp add: unit_draw_def)
  hence "\<lfloor>u * real (i + 1)\<rfloor> < int (i + 1)" by (simp only: floor_less_iff of_int_of_nat_eq)
  thus ?thesis by simp
qed

lemma shuffle_loop_mset:
  "\<forall>i. unit_draw (us i) \<Longrightarrow> k < length out \<Longrightarrow>
     mset (shuffle_loop us k out) = mset out \<and> length (shuffle_loop us k out) = length out"
proof (induction k arbitrary: out)
  case 0
  then show ?case by simp
next
  case (Suc k)
  let ?j = "nat \<lfloor>us (Suc k) * real (Suc k + 1)\<rfloor>"
  let ?out = "out[Suc k := out ! ?j, ?j := out ! Suc k]"
  have j: "?j \<le> Suc k" using Suc.prems(1) shuffle_index by blast
  have "mset ?out = mset out" using j Suc.prems(2) by (simp add: mset_swap)
  moreover have "length ?out = length out" by simp
  moreover have "k < length ?out" using Suc.prems(2) by simp
  ultimately show ?case using Suc.IH[of ?out] Suc.prems(1) by (simp add: Let_def)
qed

lemma shuffle_mset:
  "\<forall>i. unit_draw (us i) \<Longrightarrow> mset (shuffle us xs) = mset xs \<and> length (shuffle us xs) = length xs"
proof (cases xs)
  case Nil
  then show ?thesis by (simp add: shuffle_def)
next
  case (Cons a list)
  assume "\<forall>i. unit_draw (us i)"
  then show ?thesis unfolding shuffle_def
    by (intro shuffle_loop_mset) (simp_all add: Cons)
qed

lemma indexOf_absent: "x \<notin> set xs \<Longrightarrow> indexOf xs x = - 1"
  by (induction xs) (auto simp: Let_def)

lemma indexOf_present:
  "x \<in> set xs \<Longrightarrow>
     0 \<le> indexOf xs x \<and> nat (indexOf xs x) < length xs \<and> xs ! nat (indexOf xs x) = x \<and>
     (\<forall>j < nat (indexOf xs x). xs ! j \<noteq> x)"
proof (induction xs)
  case Nil
  then show ?case by simp
next
  case (Cons y ys)
  show ?case
  proof (cases "y = x")
    case True
    then show ?thesis by simp
  next
    case False
    then have in_ys: "x \<in> set ys" using Cons.prems by simp
    note ih = Cons.IH[OF in_ys]
    have eq: "indexOf (y # ys) x = indexOf ys x + 1" using False ih by (simp add: Let_def)
    have n: "nat (indexOf ys x + 1) = Suc (nat (indexOf ys x))" using ih by linarith
    show ?thesis unfolding eq n using ih False
      by (auto simp: nth_Cons split: nat.splits)
  qed
qed

lemma stockTypes_length: "length (stockTypes sh b) = length sh"
  by (simp add: stockTypes_def)

lemma stockTypes_False: "stockTypes sh False = sh"
  unfolding stockTypes_def
  by (rule nth_equalityI) (simp_all add: nth_enumerate_eq)

lemma stockTypes_True:
  assumes "Empty \<in> set sh"
  shows "stockTypes sh True = sh[nat (indexOf sh Empty) := Special]"
proof (rule nth_equalityI)
  show "length (stockTypes sh True) = length (sh[nat (indexOf sh Empty) := Special])"
    by (simp add: stockTypes_def)
next
  fix i assume "i < length (stockTypes sh True)"
  then have i: "i < length sh" by (simp add: stockTypes_def)
  note p = indexOf_present[OF assms]
  have "int i = indexOf sh Empty \<longleftrightarrow> i = nat (indexOf sh Empty)" using p by auto
  then show "stockTypes sh True ! i = sh[nat (indexOf sh Empty) := Special] ! i"
    using i p by (auto simp: stockTypes_def nth_enumerate_eq nth_list_update)
qed

section \<open>What the generator returns\<close>

lemma shuffle_loop_length: "length (shuffle_loop us k out) = length out"
  by (induction k arbitrary: out) (simp_all add: Let_def)

lemma shuffle_length: "length (shuffle us xs) = length xs"
  by (simp add: shuffle_def shuffle_loop_length)

lemma freshIds_length: "length (freshIds d) = 6"
  by (simp add: freshIds_def)

lemma stockedTypes_length: "length (stockedTypes d) = 6"
  by (simp add: stockedTypes_def stockTypes_length shuffle_length ROOM_TYPES_def)

lemma map_fst_case: "map (\<lambda>(i, x). f i) ps = map f (map fst ps)"
  by (induction ps) auto

lemma map_snd_case: "map (\<lambda>(i, x). f x) ps = map f (map snd ps)"
  by (induction ps) auto

lemma generate_nodes:
  assumes "generateBiteSizedDungeon s d = Inr g"
  shows "map node_id (nodes g) = freshIds d"
    and "map roomType (nodes g) = stockedTypes d"
    and "map entrance (nodes g) =
           map (\<lambda>i. Some (int i = randomInt 0 5 (entranceDraw d) \<or>
                           int i = randomInt 0 5 (secondEntranceDraw d))) [0..<6]"
proof -
  have n: "nodes g = map (\<lambda>(i, ident).
                          \<lparr> node_id = ident, label = ''Room '' @ showNat (i + 1),
                            roomType = stockedTypes d ! i,
                            content = getDefaultContent (stockedTypes d ! i),
                            entrance = Some (int i \<in> {randomInt 0 5 (entranceDraw d),
                                                      randomInt 0 5 (secondEntranceDraw d)}),
                            parentNodeId = None \<rparr>)
                      (enumerate 0 (freshIds d))"
    using assms unfolding generateBiteSizedDungeon_def Let_def freshIds_def stockedTypes_def
    by (auto split: if_splits sum.splits)
  show "map node_id (nodes g) = freshIds d"
    unfolding n by (simp add: comp_def case_prod_unfold map_snd_enumerate)
  have "map roomType (nodes g) = map (\<lambda>(i, x). stockedTypes d ! i) (enumerate 0 (freshIds d))"
    unfolding n by (simp add: comp_def case_prod_unfold)
  also have "\<dots> = map ((!) (stockedTypes d)) [0..<6]"
    unfolding map_fst_case by (simp add: freshIds_length)
  also have "\<dots> = stockedTypes d"
    using map_nth[of "stockedTypes d"] by (simp add: stockedTypes_length)
  finally show "map roomType (nodes g) = stockedTypes d" .
  have "map entrance (nodes g) =
          map (\<lambda>(i, x). Some (int i = randomInt 0 5 (entranceDraw d) \<or>
                           int i = randomInt 0 5 (secondEntranceDraw d))) (enumerate 0 (freshIds d))"
    unfolding n by (simp add: comp_def case_prod_unfold)
  also have "\<dots> = map (\<lambda>i. Some (int i = randomInt 0 5 (entranceDraw d) \<or>
                           int i = randomInt 0 5 (secondEntranceDraw d))) [0..<6]"
    unfolding map_fst_case by (simp add: freshIds_length)
  finally show "map entrance (nodes g) =
           map (\<lambda>i. Some (int i = randomInt 0 5 (entranceDraw d) \<or>
                           int i = randomInt 0 5 (secondEntranceDraw d))) [0..<6]" .
qed

lemma buildLinks_pairs:
  "buildLinks ids cd k seen es = Inr ls \<Longrightarrow>
     map link_pair ls = map (map_prod ((!) ids) ((!) ids)) es"
  by (induction ids cd k seen es arbitrary: ls rule: buildLinks.induct)
     (auto simp: Let_def link_pair_def split: if_splits sum.splits)

lemma generate_links:
  assumes "generateBiteSizedDungeon s d = Inr g"
  shows "\<exists>L \<in> set LAYOUTS. map link_pair (links g) =
           map (map_prod ((!) (freshIds d)) ((!) (freshIds d))) L"
proof -
  define li where "li = (case s of None \<Rightarrow> randomInt 0 (int (length LAYOUTS) - 1) (layoutDraw d)
                         | Some s \<Rightarrow> s)"
  have range: "0 \<le> li" "li < int (length LAYOUTS)"
    using assms unfolding generateBiteSizedDungeon_def Let_def li_def[symmetric]
    by (auto split: if_splits)
  have "buildLinks (freshIds d) (connectionDraw d) 0 {} (LAYOUTS ! nat li) = Inr (links g)"
    using assms unfolding generateBiteSizedDungeon_def Let_def li_def[symmetric] freshIds_def
    by (auto split: if_splits sum.splits)
  then have "map link_pair (links g) =
           map (map_prod ((!) (freshIds d)) ((!) (freshIds d))) (LAYOUTS ! nat li)"
    by (rule buildLinks_pairs)
  moreover have "LAYOUTS ! nat li \<in> set LAYOUTS" using range by simp
  ultimately show ?thesis by blast
qed

lemma link_rel_map:
  "(a, b) \<in> link_rel es \<Longrightarrow> (f a, f b) \<in> link_rel (map (map_prod f f) es)"
  by (force simp: link_rel_def)

lemma joined_map:
  assumes "joined es a b"
  shows "joined (map (map_prod f f) es) (f a) (f b)"
  using assms unfolding joined_def
proof (induction rule: rtrancl_induct)
  case base
  then show ?case by simp
next
  case (step y z)
  then show ?case using link_rel_map[of y z es f] by (meson rtrancl.rtrancl_into_rtrancl)
qed

lemma remove_nth_map: "remove_nth i (map f xs) = map f (remove_nth i xs)"
  by (simp add: remove_nth_def take_map drop_map)

lemma connected_graph_map:
  assumes "connected_graph vs es"
  shows "connected_graph (map f vs) (map (map_prod f f) es)"
  using assms unfolding connected_graph_def by (auto intro: joined_map)

lemma has_cycle_map:
  assumes "has_cycle es"
  shows "has_cycle (map (map_prod f f) es)"
proof -
  from assms obtain i where i: "i < length es"
    and j: "joined (remove_nth i es) (fst (es ! i)) (snd (es ! i))"
    unfolding has_cycle_def by blast
  have "joined (remove_nth i (map (map_prod f f) es))
          (fst (map (map_prod f f) es ! i)) (snd (map (map_prod f f) es ! i))"
    using joined_map[OF j, of f] i by (simp add: remove_nth_map)
  then show ?thesis using i unfolding has_cycle_def by auto
qed

text \<open>
  C2. Every graph the generator returns has six rooms and six connections, is
  connected, has a cycle, has a room flagged as entrance, and its room types are one
  monster with treasure, one monster, one treasure and either three empty rooms or
  two empty rooms and one special room.
\<close>

theorem generateBiteSizedDungeon_shape:
  assumes ok: "draws_ok d"
    and gen: "generateBiteSizedDungeon seedLayout d = Inr g"
  shows "length (nodes g) = 6 \<and> length (links g) = 6 \<and>
         connected_graph (map node_id (nodes g)) (map link_pair (links g)) \<and>
         has_cycle (map link_pair (links g)) \<and>
         (\<exists>n \<in> set (nodes g). entrance n = Some True) \<and>
         (mset (map roomType (nodes g)) =
            {#MonsterTreasure, Monster, Treasure, Empty, Empty, Empty#} \<or>
          mset (map roomType (nodes g)) =
            {#MonsterTreasure, Monster, Treasure, Empty, Empty, Special#})"
proof -
  note nd = generate_nodes[OF gen]
  from generate_links[OF gen] obtain L where L: "L \<in> set LAYOUTS"
    and lp: "map link_pair (links g) = map (map_prod ((!) (freshIds d)) ((!) (freshIds d))) L"
    by blast
  have Lok: "layout_ok L" using LAYOUTS_ok L by blast
  have n6: "length (nodes g) = 6"
    using arg_cong[OF nd(1), of length] by (simp add: freshIds_length)
  have l6: "length (links g) = 6"
    using arg_cong[OF lp, of length] Lok by (simp add: layout_ok_def)
  have ids: "freshIds d = map ((!) (freshIds d)) [0..<6]"
    using map_nth[of "freshIds d"] by (simp add: freshIds_length)
  have conn: "connected_graph (map node_id (nodes g)) (map link_pair (links g))"
    unfolding nd(1) lp
    by (subst ids) (rule connected_graph_map[OF layout_ok_connected[OF Lok]])
  have cyc: "has_cycle (map link_pair (links g))"
    unfolding lp by (rule has_cycle_map[OF layout_ok_cycle[OF Lok]])
  have ent: "\<exists>n \<in> set (nodes g). entrance n = Some True"
  proof -
    define e where "e = randomInt 0 5 (entranceDraw d)"
    have r: "0 \<le> e \<and> e \<le> 5"
      unfolding e_def by (rule randomInt_range) (use ok in \<open>auto simp: draws_ok_def\<close>)
    then have k: "nat e < 6" by linarith
    have "map entrance (nodes g) ! nat e = Some True"
      unfolding nd(3) using k r by (simp add: e_def del: upt_Suc)
    then have "entrance (nodes g ! nat e) = Some True" using k n6 by simp
    then show ?thesis using k n6 by (metis nth_mem)
  qed
  have ms: "mset (map roomType (nodes g)) =
            {#MonsterTreasure, Monster, Treasure, Empty, Empty, Empty#} \<or>
          mset (map roomType (nodes g)) =
            {#MonsterTreasure, Monster, Treasure, Empty, Empty, Special#}"
  proof -
    let ?sh = "shuffle (shuffleDraw d) ROOM_TYPES"
    have sh: "mset ?sh = mset ROOM_TYPES"
      using shuffle_mset[of "shuffleDraw d" ROOM_TYPES] ok by (simp add: draws_ok_def)
    have E: "Empty \<in> set ?sh"
      using arg_cong[OF sh, of set_mset] by (simp add: ROOM_TYPES_def)
    note p = indexOf_present[OF E]
    show ?thesis
    proof (cases "randomInt 0 2 (specialDraw d) = 0")
      case True
      have "mset (stockedTypes d) = add_mset Special (mset ?sh - {#Empty#})"
        unfolding stockedTypes_def using True p
        by (simp add: stockTypes_True[OF E] mset_update)
      then show ?thesis unfolding nd(2) sh by (simp add: ROOM_TYPES_def)
    next
      case False
      then show ?thesis unfolding nd(2) stockedTypes_def
        by (simp add: stockTypes_False sh) (simp add: ROOM_TYPES_def)
    qed
  qed
  show ?thesis using n6 l6 conn cyc ent ms by blast
qed

section \<open>The generator returns\<close>

lemma sampleDraws_ok: "0 \<le> u \<Longrightarrow> u < 1 \<Longrightarrow> draws_ok (sampleDraws u)"
  by (simp add: draws_ok_def sampleDraws_def unit_draw_def)

lemma shuffle_sample:
  "shuffle (\<lambda>i. 9 / 10) ROOM_TYPES = [MonsterTreasure, Monster, Treasure, Empty, Empty, Empty]"
  by (simp add: shuffle_def ROOM_TYPES_def eval_nat_numeral Let_def)


lemma split_at_unique:
  "c \<notin> set xs \<Longrightarrow> c \<notin> set ys \<Longrightarrow> xs @ c # r = ys @ c # r' \<Longrightarrow> xs = ys \<and> r = r'"
proof (induction xs arbitrary: ys)
  case Nil
  then show ?case by (cases ys) auto
next
  case (Cons x xs)
  then show ?case by (cases ys) auto
qed

lemma dash_split:
  assumes "CHR ''-'' \<notin> set s" "CHR ''-'' \<notin> set s'"
    and "(''room-'' @ s) @ ''-'' @ r = (''room-'' @ s') @ ''-'' @ r'"
  shows "s = s' \<and> r = r'"
  using assms split_at_unique[of "CHR ''-''" s s' r r'] by simp

lemma normKey_form:
  "\<exists>lo hi. normKey (generateId a) (generateId b) = (''room-'' @ lo) @ ''-'' @ (''room-'' @ hi) \<and>
           ((lo = a \<and> hi = b) \<or> (lo = b \<and> hi = a))"
proof (cases "generateId b < generateId a")
  case True
  then have "normKey (generateId a) (generateId b) = (''room-'' @ b) @ ''-'' @ (''room-'' @ a)"
    by (simp add: normKey_def generateId_def)
  then show ?thesis by blast
next
  case False
  then have "normKey (generateId a) (generateId b) = (''room-'' @ a) @ ''-'' @ (''room-'' @ b)"
    by (simp add: normKey_def generateId_def)
  then show ?thesis by blast
qed

lemma normKey_inj:
  assumes "CHR ''-'' \<notin> set a" "CHR ''-'' \<notin> set b" "CHR ''-'' \<notin> set a'" "CHR ''-'' \<notin> set b'"
    and "normKey (generateId a) (generateId b) = normKey (generateId a') (generateId b')"
  shows "(a = a' \<and> b = b') \<or> (a = b' \<and> b = a')"
proof -
  obtain lo hi where k1: "normKey (generateId a) (generateId b) =
      (''room-'' @ lo) @ ''-'' @ (''room-'' @ hi)"
    and c1: "(lo = a \<and> hi = b) \<or> (lo = b \<and> hi = a)"
    using normKey_form[of a b] by blast
  obtain lo' hi' where k2: "normKey (generateId a') (generateId b') =
      (''room-'' @ lo') @ ''-'' @ (''room-'' @ hi')"
    and c2: "(lo' = a' \<and> hi' = b') \<or> (lo' = b' \<and> hi' = a')"
    using normKey_form[of a' b'] by blast
  have d: "CHR ''-'' \<notin> set lo" "CHR ''-'' \<notin> set lo'"
    using c1 c2 assms(1-4) by auto
  have "(''room-'' @ lo) @ ''-'' @ (''room-'' @ hi) = (''room-'' @ lo') @ ''-'' @ (''room-'' @ hi')"
    using assms(5) k1 k2 by simp
  from dash_split[OF d this] have "lo = lo'" "hi = hi'" by simp_all
  then show ?thesis using c1 c2 by blast
qed

lemma buildLinks_returns:
  "distinct (map (\<lambda>(a, b). normKey (ids ! a) (ids ! b)) es) \<Longrightarrow>
   (\<forall>e \<in> set es. normKey (ids ! fst e) (ids ! snd e) \<notin> seen) \<Longrightarrow>
   \<exists>ls. buildLinks ids cd k seen es = Inr ls"
proof (induction ids cd k seen es rule: buildLinks.induct)
  case (1 nodeIds cd k linkSet)
  then show ?case by simp
next
  case (2 nodeIds cd k linkSet a b edges)
  let ?key = "normKey (nodeIds ! a) (nodeIds ! b)"
  have notin: "?key \<notin> linkSet" using 2(3) by simp
  have "\<exists>ls. buildLinks nodeIds cd (Suc k) (insert ?key linkSet) edges = Inr ls"
  proof (rule 2(1)[OF refl refl refl notin])
    show "distinct (map (\<lambda>(a, b). normKey (nodeIds ! a) (nodeIds ! b)) edges)"
      using 2(2) by simp
    show "\<forall>e\<in>set edges. normKey (nodeIds ! fst e) (nodeIds ! snd e) \<notin> insert ?key linkSet"
    proof
      fix e assume e: "e \<in> set edges"
      have "normKey (nodeIds ! fst e) (nodeIds ! snd e) \<notin> linkSet" using 2(3) e by simp
      moreover have "normKey (nodeIds ! fst e) (nodeIds ! snd e) \<noteq> ?key"
      proof
        assume "normKey (nodeIds ! fst e) (nodeIds ! snd e) = ?key"
        then have "?key \<in> (\<lambda>(a, b). normKey (nodeIds ! a) (nodeIds ! b)) ` set edges"
          using e by (force simp: case_prod_unfold)
        then show False using 2(2) by simp
      qed
      ultimately show "normKey (nodeIds ! fst e) (nodeIds ! snd e) \<notin> insert ?key linkSet"
        by simp
    qed
  qed
  then show ?case using notin by (auto simp: Let_def)
qed

lemma distinct_map_transfer:
  assumes "distinct (map f xs)"
    and "\<And>x y. x \<in> set xs \<Longrightarrow> y \<in> set xs \<Longrightarrow> g x = g y \<Longrightarrow> f x = f y"
  shows "distinct (map g xs)"
  using assms
proof (induction xs)
  case Nil
  then show ?case by simp
next
  case (Cons a xs)
  have d: "f a \<notin> f ` set xs" "distinct (map f xs)" using Cons.prems(1) by simp_all
  have "g a \<notin> g ` set xs"
  proof
    assume "g a \<in> g ` set xs"
    then obtain y where y: "y \<in> set xs" "g a = g y" by blast
    have "f a = f y" by (rule Cons.prems(2)[OF _ _ y(2)]) (simp_all add: y(1))
    then show False using d(1) y(1) by blast
  qed
  moreover have "distinct (map g xs)"
    by (rule Cons.IH[OF d(2)]) (rule Cons.prems(2), simp_all)
  ultimately show ?case by simp
qed

lemma freshIds_key_inj:
  assumes ok: "ids_ok d" and a: "fst e < 6" "snd e < 6" "fst e' < 6" "snd e' < 6"
    and k: "normKey (freshIds d ! fst e) (freshIds d ! snd e) =
            normKey (freshIds d ! fst e') (freshIds d ! snd e')"
  shows "norm_pair e = norm_pair e'"
proof -
  have nth: "\<And>i. i < 6 \<Longrightarrow> freshIds d ! i = generateId (idDraw d i)"
    by (simp add: freshIds_def del: upt_Suc)
  have dash: "\<And>i. i < 6 \<Longrightarrow> CHR ''-'' \<notin> set (idDraw d i)"
    using ok by (simp add: ids_ok_def)
  have inj: "\<And>i j. i < 6 \<Longrightarrow> j < 6 \<Longrightarrow> idDraw d i = idDraw d j \<Longrightarrow> i = j"
  proof -
    fix i j :: nat assume ij: "i < 6" "j < 6" "idDraw d i = idDraw d j"
    have io: "inj_on (idDraw d) (set [0..<6])"
      using ok unfolding ids_ok_def distinct_map by blast
    have "i \<in> set [0..<6]" "j \<in> set [0..<6]" using ij by simp_all
    then show "i = j" using inj_onD[OF io ij(3)] by blast
  qed
  have "(idDraw d (fst e) = idDraw d (fst e') \<and> idDraw d (snd e) = idDraw d (snd e')) \<or>
        (idDraw d (fst e) = idDraw d (snd e') \<and> idDraw d (snd e) = idDraw d (fst e'))"
    using k a by (intro normKey_inj) (simp_all add: nth dash)
  then have "(fst e = fst e' \<and> snd e = snd e') \<or> (fst e = snd e' \<and> snd e = fst e')"
    using inj a by blast
  then show ?thesis by (auto simp: norm_pair_def min_def max_def)
qed

lemma layout_ok_bounds:
  assumes ok: "layout_ok L" and e: "e \<in> set L"
  shows "fst e < 6 \<and> snd e < 6"
proof -
  have eq: "set (map fst L) \<union> set (map snd L) = {0..<6}"
    using ok unfolding layout_ok_def by (rule conjunct1[OF conjunct2])
  have "fst e \<in> set (map fst L)" "snd e \<in> set (map snd L)"
    using e by simp_all
  then have "fst e \<in> {0..<6}" "snd e \<in> {0..<6}"
    unfolding eq[symmetric] by blast+
  then show ?thesis by simp
qed

lemma generate_returns:
  assumes "draws_ok d" "ids_ok d"
  shows "\<exists>g. generateBiteSizedDungeon None d = Inr g"
proof -
  define li where "li = randomInt 0 (int (length LAYOUTS) - 1) (layoutDraw d)"
  have len: "length LAYOUTS = 10" by (simp add: LAYOUTS_def)
  have r: "0 \<le> li \<and> li \<le> int (length LAYOUTS) - 1"
    unfolding li_def by (rule randomInt_range) (use assms len in \<open>auto simp: draws_ok_def\<close>)
  then have "nat li < length LAYOUTS" unfolding len by linarith
  then have mem: "LAYOUTS ! nat li \<in> set LAYOUTS" by (rule nth_mem)
  then have Lok: "layout_ok (LAYOUTS ! nat li)" using LAYOUTS_ok by blast
  have "distinct (map (\<lambda>e. normKey (freshIds d ! fst e) (freshIds d ! snd e)) (LAYOUTS ! nat li))"
  proof (rule distinct_map_transfer[where f = norm_pair])
    show "distinct (map norm_pair (LAYOUTS ! nat li))"
      using Lok unfolding layout_ok_def by blast
    fix x y
    assume xy: "x \<in> set (LAYOUTS ! nat li)" "y \<in> set (LAYOUTS ! nat li)"
      and k: "normKey (freshIds d ! fst x) (freshIds d ! snd x) =
              normKey (freshIds d ! fst y) (freshIds d ! snd y)"
    show "norm_pair x = norm_pair y"
      using freshIds_key_inj[OF assms(2) _ _ _ _ k]
            layout_ok_bounds[OF Lok xy(1)] layout_ok_bounds[OF Lok xy(2)] by blast
  qed
  then have "\<exists>ls. buildLinks (freshIds d) (connectionDraw d) 0 {} (LAYOUTS ! nat li) = Inr ls"
    by (intro buildLinks_returns) (simp_all add: case_prod_unfold)
  then show ?thesis
    using r unfolding generateBiteSizedDungeon_def Let_def li_def[symmetric] freshIds_def[symmetric]
    by (auto simp: len)
qed

lemma sampleDraws_ids_ok: "ids_ok (sampleDraws u)"
proof -
  have "\<And>i j. replicate (Suc i) CHR ''x'' = replicate (Suc j) CHR ''x'' \<Longrightarrow> i = j"
  proof -
    fix i j :: nat assume h: "replicate (Suc i) CHR ''x'' = replicate (Suc j) CHR ''x''"
    from arg_cong[OF h, of length] show "i = j" by simp
  qed
  then have "inj_on (\<lambda>k. replicate (Suc k) CHR ''x'') (set [0..<6])"
    unfolding inj_on_def by blast
  then show ?thesis
    unfolding ids_ok_def sampleDraws_def by (simp add: distinct_map del: upt_Suc)
qed

section \<open>The upgrade to a special room\<close>

lemma randomInt_third:
  assumes "unit_draw u"
  shows "(randomInt 0 2 u = 0) = (u < 1 / 3)"
proof -
  have "(\<lfloor>u * 3\<rfloor> = 0) = (0 \<le> u * 3 \<and> u * 3 < 1)" by (simp add: floor_eq_iff)
  then show ?thesis using assms by (auto simp: randomInt_def unit_draw_def)
qed

section \<open>The shuffle is a bijection from rolls to permutations\<close>

lemma shuffle_loop_Suc:
  "shuffle_loop us (Suc k) out = shuffle_loop us k (exchange (Suc k) (shuffleRoll us (Suc k)) out)"
  by (simp add: Let_def shuffleRoll_def exchange_def)

lemma shuffleRoll_le: "unit_draw (us i) \<Longrightarrow> shuffleRoll us i \<le> i"
  unfolding shuffleRoll_def by (rule shuffle_index)

lemma exchange_length: "length (exchange i j out) = length out"
  by (simp add: exchange_def)

lemma exchange_distinct: "i < length out \<Longrightarrow> j < length out \<Longrightarrow> distinct (exchange i j out) = distinct out"
  unfolding exchange_def by (rule distinct_swap)

lemma exchange_mset: "i < length out \<Longrightarrow> j < length out \<Longrightarrow> mset (exchange i j out) = mset out"
  unfolding exchange_def by (simp add: mset_swap)

lemma exchange_other: "m \<noteq> i \<Longrightarrow> m \<noteq> j \<Longrightarrow> exchange i j out ! m = out ! m"
  by (simp add: exchange_def)

lemma exchange_at: "i < length out \<Longrightarrow> j < length out \<Longrightarrow> exchange i j out ! i = out ! j"
  by (cases "i = j") (simp_all add: exchange_def)

lemma exchange_map: "i < length out \<Longrightarrow> j < length out \<Longrightarrow> exchange i j (map f out) = map f (exchange i j out)"
  by (simp add: exchange_def map_update)

lemma shuffle_loop_cong:
  "(\<And>i. 1 \<le> i \<Longrightarrow> i \<le> k \<Longrightarrow> shuffleRoll us i = shuffleRoll us' i) \<Longrightarrow>
     shuffle_loop us k out = shuffle_loop us' k out"
proof (induction k arbitrary: out)
  case 0
  then show ?case by simp
next
  case (Suc k)
  have r: "shuffleRoll us (Suc k) = shuffleRoll us' (Suc k)" by (rule Suc.prems) simp_all
  have "shuffle_loop us k (exchange (Suc k) (shuffleRoll us' (Suc k)) out) =
        shuffle_loop us' k (exchange (Suc k) (shuffleRoll us' (Suc k)) out)"
    by (rule Suc.IH) (rule Suc.prems, simp_all)
  then show ?case unfolding shuffle_loop_Suc r .
qed

lemma shuffle_loop_above:
  "(\<And>i. unit_draw (us i)) \<Longrightarrow> k < m \<Longrightarrow> shuffle_loop us k out ! m = out ! m"
proof (induction k arbitrary: out)
  case 0
  then show ?case by simp
next
  case (Suc k)
  have j: "shuffleRoll us (Suc k) \<le> Suc k" by (rule shuffleRoll_le[OF Suc.prems(1)])
  have "shuffle_loop us k (exchange (Suc k) (shuffleRoll us (Suc k)) out) ! m =
        exchange (Suc k) (shuffleRoll us (Suc k)) out ! m"
    by (rule Suc.IH[OF Suc.prems(1)]) (use Suc.prems(2) in simp)
  also have "\<dots> = out ! m" by (rule exchange_other) (use j Suc.prems(2) in simp_all)
  finally show ?case unfolding shuffle_loop_Suc .
qed

lemma shuffle_loop_top:
  assumes "\<And>i. unit_draw (us i)" and "Suc k < length out"
  shows "shuffle_loop us (Suc k) out ! Suc k = out ! shuffleRoll us (Suc k)"
proof -
  have j: "shuffleRoll us (Suc k) \<le> Suc k" by (rule shuffleRoll_le[OF assms(1)])
  have "shuffle_loop us (Suc k) out ! Suc k = exchange (Suc k) (shuffleRoll us (Suc k)) out ! Suc k"
    unfolding shuffle_loop_Suc by (rule shuffle_loop_above[OF assms(1)]) simp
  also have "\<dots> = out ! shuffleRoll us (Suc k)"
    by (rule exchange_at) (use j assms(2) in simp_all)
  finally show ?thesis .
qed

lemma shuffle_loop_inj:
  assumes "\<And>i. unit_draw (us i)" "\<And>i. unit_draw (us' i)"
  shows "distinct out \<Longrightarrow> k < length out \<Longrightarrow>
     shuffle_loop us k out = shuffle_loop us' k out \<Longrightarrow>
     1 \<le> i \<Longrightarrow> i \<le> k \<Longrightarrow> shuffleRoll us i = shuffleRoll us' i"
proof (induction k arbitrary: out)
  case 0
  then show ?case by simp
next
  case (Suc k)
  let ?j = "shuffleRoll us (Suc k)" and ?j' = "shuffleRoll us' (Suc k)"
  have j: "?j \<le> Suc k" "?j' \<le> Suc k"
    by (rule shuffleRoll_le[OF assms(1)], rule shuffleRoll_le[OF assms(2)])
  have t1: "shuffle_loop us (Suc k) out ! Suc k = out ! ?j"
    by (rule shuffle_loop_top[of us k out]) (rule assms(1), rule Suc.prems(2))
  have t2: "shuffle_loop us' (Suc k) out ! Suc k = out ! ?j'"
    by (rule shuffle_loop_top[of us' k out]) (rule assms(2), rule Suc.prems(2))
  have "out ! ?j = out ! ?j'"
    unfolding t1[symmetric] t2[symmetric] Suc.prems(3) ..
  then have same: "?j = ?j'"
    using Suc.prems(1,2) j by (simp add: nth_eq_iff_index_eq)
  show ?case
  proof (cases "i = Suc k")
    case True
    then show ?thesis using same by simp
  next
    case False
    then have ik: "i \<le> k" using Suc.prems(5) by simp
    let ?out = "exchange (Suc k) ?j out"
    have d: "distinct ?out" using Suc.prems(1,2) j(1) by (simp add: exchange_distinct)
    have l: "k < length ?out" using Suc.prems(2) by (simp add: exchange_length)
    have e: "shuffle_loop us k ?out = shuffle_loop us' k ?out"
      using Suc.prems(3) unfolding shuffle_loop_Suc same .
    show ?thesis by (rule Suc.IH[OF d l e Suc.prems(4) ik])
  qed
qed


lemma perm_fixes_rest:
  assumes d: "distinct out" and m: "mset ys = mset out"
    and agree: "\<And>m. k < m \<Longrightarrow> m < length out \<Longrightarrow> ys ! m = out ! m"
    and p: "p \<le> k" "k < length out"
  shows "\<exists>j \<le> k. out ! j = ys ! p"
proof -
  have len: "length ys = length out" using m by (rule mset_eq_length)
  have dy: "distinct ys" using d m by (metis mset_eq_imp_distinct_iff)
  have "ys ! p \<in> set ys" using p len by simp
  then have "ys ! p \<in> set out" using m by (metis mset_eq_setD)
  then obtain j where j: "j < length out" "out ! j = ys ! p" by (auto simp: in_set_conv_nth)
  have "j \<le> k"
  proof (rule ccontr)
    assume "\<not> j \<le> k"
    then have kj: "k < j" by simp
    then have "ys ! j = out ! j" using agree j(1) by blast
    then have "ys ! j = ys ! p" using j(2) by simp
    then have "j = p" using dy j(1) p len by (simp add: nth_eq_iff_index_eq)
    then show False using kj p(1) by simp
  qed
  then show ?thesis using j(2) by blast
qed

lemma shuffle_loop_surj:
  "distinct out \<Longrightarrow> k < length out \<Longrightarrow> mset ys = mset out \<Longrightarrow>
   (\<And>m. k < m \<Longrightarrow> m < length out \<Longrightarrow> ys ! m = out ! m) \<Longrightarrow>
   \<exists>us. (\<forall>i. unit_draw (us i)) \<and> shuffle_loop us k out = ys"
proof (induction k arbitrary: out)
  case 0
  have len: "length ys = length out" using 0(3) by (rule mset_eq_length)
  from perm_fixes_rest[OF 0(1) 0(3) 0(4) _ 0(2), of 0]
  have z: "out ! 0 = ys ! 0" by simp
  have "ys = out"
  proof (rule nth_equalityI[OF len])
    fix i assume "i < length ys"
    then show "ys ! i = out ! i" using z 0(4)[of i] len by (cases i) simp_all
  qed
  moreover have "\<forall>i. unit_draw ((\<lambda>i. 0) i)" by (simp add: unit_draw_def)
  ultimately show ?case by (intro exI[of _ "\<lambda>i. 0"]) simp
next
  case (Suc k)
  from perm_fixes_rest[OF Suc.prems(1) Suc.prems(3) Suc.prems(4) _ Suc.prems(2), of "Suc k"]
  obtain j where j: "j \<le> Suc k" "out ! j = ys ! Suc k" by auto
  let ?out = "exchange (Suc k) j out"
  have jl: "j < length out" using j(1) Suc.prems(2) by simp
  have d: "distinct ?out" using Suc.prems(1,2) jl by (simp add: exchange_distinct)
  have l: "k < length ?out" using Suc.prems(2) by (simp add: exchange_length)
  have m: "mset ys = mset ?out" using Suc.prems(2,3) jl by (simp add: exchange_mset)
  have a: "\<And>m. k < m \<Longrightarrow> m < length ?out \<Longrightarrow> ys ! m = ?out ! m"
  proof -
    fix m assume km: "k < m" and ml: "m < length ?out"
    show "ys ! m = ?out ! m"
    proof (cases "m = Suc k")
      case True
      have "?out ! Suc k = out ! j" by (rule exchange_at[OF Suc.prems(2) jl])
      then show ?thesis using True j(2) by simp
    next
      case False
      then have sm: "Suc k < m" using km by simp
      have "?out ! m = out ! m" by (rule exchange_other) (use sm j(1) in simp_all)
      moreover have "ys ! m = out ! m" using Suc.prems(4)[OF sm] ml by (simp add: exchange_length)
      ultimately show ?thesis by simp
    qed
  qed
  from Suc.IH[OF d l m a] obtain us where us: "\<forall>i. unit_draw (us i)"
    "shuffle_loop us k ?out = ys" by blast
  let ?u = "real j / real (Suc k + 1)"
  let ?us = "us(Suc k := ?u)"
  have uj: "?u * real (Suc k + 1) = real j" by simp
  have roll: "shuffleRoll ?us (Suc k) = j"
    unfolding shuffleRoll_def fun_upd_same uj by simp
  have "0 \<le> ?u" by simp
  moreover have "?u < 1" using j(1) by simp
  ultimately have "unit_draw ?u" by (simp add: unit_draw_def)
  then have ok: "\<forall>i. unit_draw (?us i)" using us(1) by simp
  have "shuffle_loop ?us k ?out = shuffle_loop us k ?out"
    by (rule shuffle_loop_cong) (simp add: shuffleRoll_def)
  then have "shuffle_loop ?us (Suc k) out = ys"
    unfolding shuffle_loop_Suc roll using us(2) by simp
  then show ?case using ok by blast
qed

lemma shuffle_loop_map:
  "(\<And>i. unit_draw (us i)) \<Longrightarrow> k < length out \<Longrightarrow>
     shuffle_loop us k (map f out) = map f (shuffle_loop us k out)"
proof (induction k arbitrary: out)
  case 0
  then show ?case by simp
next
  case (Suc k)
  have j: "shuffleRoll us (Suc k) \<le> Suc k" by (rule shuffleRoll_le[OF Suc.prems(1)])
  have sw: "exchange (Suc k) (shuffleRoll us (Suc k)) (map f out) =
            map f (exchange (Suc k) (shuffleRoll us (Suc k)) out)"
    by (rule exchange_map) (use j Suc.prems(2) in simp_all)
  have "shuffle_loop us k (map f (exchange (Suc k) (shuffleRoll us (Suc k)) out)) =
        map f (shuffle_loop us k (exchange (Suc k) (shuffleRoll us (Suc k)) out))"
    by (rule Suc.IH[OF Suc.prems(1)]) (use Suc.prems(2) in \<open>simp add: exchange_length\<close>)
  then show ?case unfolding shuffle_loop_Suc sw .
qed

lemma shuffle_positions:
  "shuffle us [0..<6] = shuffle_loop us 5 [0..<6]"
  by (simp add: shuffle_def)

lemma shuffle_positions_inj:
  assumes "\<And>i. unit_draw (us i)" "\<And>i. unit_draw (us' i)"
  shows "(shuffle us [0..<6] = shuffle us' [0..<6]) =
         (\<forall>i \<in> {1..5}. shuffleRoll us i = shuffleRoll us' i)"
proof
  assume e: "shuffle us [0..<6] = shuffle us' [0..<6]"
  show "\<forall>i \<in> {1..5}. shuffleRoll us i = shuffleRoll us' i"
  proof
    fix i :: nat assume i: "i \<in> {1..5}"
    have d: "distinct [0..<6]" by simp
    have l: "5 < length [0..<6]" by simp
    have e': "shuffle_loop us 5 [0..<6] = shuffle_loop us' 5 [0..<6]"
      using e unfolding shuffle_positions .
    have i1: "1 \<le> i" and i5: "i \<le> 5" using i by simp_all
    show "shuffleRoll us i = shuffleRoll us' i"
      by (rule shuffle_loop_inj[of us us', OF assms(1) assms(2) d l e' i1 i5])
  qed
next
  assume "\<forall>i \<in> {1..5}. shuffleRoll us i = shuffleRoll us' i"
  then have "\<And>i. 1 \<le> i \<Longrightarrow> i \<le> 5 \<Longrightarrow> shuffleRoll us i = shuffleRoll us' i" by simp
  then have "shuffle_loop us 5 [0..<6] = shuffle_loop us' 5 [0..<6]"
    by (rule shuffle_loop_cong)
  then show "shuffle us [0..<6] = shuffle us' [0..<6]" unfolding shuffle_positions .
qed

lemma shuffle_positions_surj:
  assumes "mset p = mset [0..<6]"
  shows "\<exists>us. (\<forall>i. unit_draw (us i)) \<and> shuffle us [0..<6] = p"
proof -
  have "\<exists>us. (\<forall>i. unit_draw (us i)) \<and> shuffle_loop us 5 [0..<6] = p"
    by (rule shuffle_loop_surj) (use assms in simp_all)
  then show ?thesis unfolding shuffle_positions .
qed

lemma shuffle_by_positions:
  assumes "\<And>i. unit_draw (us i)"
  shows "shuffle us ROOM_TYPES = map ((!) ROOM_TYPES) (shuffle us [0..<6])"
proof -
  have len6: "length ROOM_TYPES = 6" by (simp add: ROOM_TYPES_def)
  have r: "ROOM_TYPES = map ((!) ROOM_TYPES) [0..<6]"
    using map_nth[of ROOM_TYPES] unfolding len6 by (rule sym)
  have l: "length ROOM_TYPES - 1 = 5" by (simp add: ROOM_TYPES_def)
  have "shuffle us ROOM_TYPES = shuffle_loop us 5 ROOM_TYPES"
    unfolding shuffle_def l ..
  also have "\<dots> = shuffle_loop us 5 (map ((!) ROOM_TYPES) [0..<6])"
    using r by (rule arg_cong)
  also have "\<dots> = map ((!) ROOM_TYPES) (shuffle_loop us 5 [0..<6])"
    by (rule shuffle_loop_map[of us, OF assms]) simp
  finally show ?thesis unfolding shuffle_positions .
qed


text \<open>
  C3 (as the code has it). The shuffle is uniform over the six positions: the types
  are the canonical six read through a permutation of the positions 0..5; the
  permutation is decided by the five rolls of the loop, the roll of iteration \<open>i\<close>
  being one of 0..\<open>i\<close>; two runs give the same permutation exactly when their
  rolls agree, and every permutation of the positions is given by some draws. So
  the 720 tuples of rolls, equally likely, correspond one to one to the 720
  permutations. The upgrade is decided by the integer roll \<open>randomInt(0, 2)\<close>, one
  of 0, 1, 2: it happens exactly when the roll is 0, that is when the draw is below
  one third. When it happens, the position upgraded is the first position of the
  shuffled array that holds an empty room, and no other position changes.
\<close>

theorem special_upgrade_first_empty:
  assumes ok: "draws_ok d"
    and gen: "generateBiteSizedDungeon seedLayout d = Inr g"
  shows "shuffle (shuffleDraw d) ROOM_TYPES =
           map ((!) ROOM_TYPES) (shuffle (shuffleDraw d) [0..<6]) \<and>
         mset (shuffle (shuffleDraw d) [0..<6]) = mset [0..<6] \<and>
         (\<forall>i. shuffleRoll (shuffleDraw d) i \<le> i) \<and>
         (\<forall>us. (\<forall>i. unit_draw (us i)) \<longrightarrow>
            (shuffle us [0..<6] = shuffle (shuffleDraw d) [0..<6]) =
            (\<forall>i \<in> {1..5}. shuffleRoll us i = shuffleRoll (shuffleDraw d) i)) \<and>
         (\<forall>p. mset p = mset [0..<6] \<longrightarrow>
            (\<exists>us. (\<forall>i. unit_draw (us i)) \<and> shuffle us [0..<6] = p)) \<and>
         (let sh = shuffle (shuffleDraw d) ROOM_TYPES; first = nat (indexOf sh Empty)
          in mset sh = mset ROOM_TYPES \<and>
             first < 6 \<and> sh ! first = Empty \<and> (\<forall>j < first. sh ! j \<noteq> Empty) \<and>
             randomInt 0 2 (specialDraw d) \<in> {0, 1, 2} \<and>
             (randomInt 0 2 (specialDraw d) = 0) = (specialDraw d < 1 / 3) \<and>
             map roomType (nodes g) =
               (if randomInt 0 2 (specialDraw d) = 0 then sh[first := Special] else sh))"
proof -
  let ?sh = "shuffle (shuffleDraw d) ROOM_TYPES"
  have ud: "\<And>i. unit_draw (shuffleDraw d i)" using ok by (simp add: draws_ok_def)
  have u1: "?sh = map ((!) ROOM_TYPES) (shuffle (shuffleDraw d) [0..<6])"
    by (rule shuffle_by_positions[of "shuffleDraw d", OF ud])
  have u2: "mset (shuffle (shuffleDraw d) [0..<6]) = mset [0..<6]"
    using shuffle_mset[of "shuffleDraw d" "[0..<6]"] ud by blast
  have u3: "\<forall>i. shuffleRoll (shuffleDraw d) i \<le> i"
    using shuffleRoll_le[of "shuffleDraw d", OF ud] by blast
  have u4: "\<forall>us. (\<forall>i. unit_draw (us i)) \<longrightarrow>
            (shuffle us [0..<6] = shuffle (shuffleDraw d) [0..<6]) =
            (\<forall>i \<in> {1..5}. shuffleRoll us i = shuffleRoll (shuffleDraw d) i)"
  proof (intro allI impI)
    fix us :: "nat \<Rightarrow> real" assume v: "\<forall>i. unit_draw (us i)"
    then have v': "\<And>i. unit_draw (us i)" by blast
    show "(shuffle us [0..<6] = shuffle (shuffleDraw d) [0..<6]) =
            (\<forall>i \<in> {1..5}. shuffleRoll us i = shuffleRoll (shuffleDraw d) i)"
      by (rule shuffle_positions_inj[of us "shuffleDraw d", OF v' ud])
  qed
  have u5: "\<forall>p. mset p = mset [0..<6] \<longrightarrow>
            (\<exists>us. (\<forall>i. unit_draw (us i)) \<and> shuffle us [0..<6] = p)"
    using shuffle_positions_surj by blast
  have sh: "mset ?sh = mset ROOM_TYPES"
    using shuffle_mset[of "shuffleDraw d" ROOM_TYPES] ok by (simp add: draws_ok_def)
  have E: "Empty \<in> set ?sh"
    using arg_cong[OF sh, of set_mset] by (simp add: ROOM_TYPES_def)
  note p = indexOf_present[OF E]
  have len: "length ?sh = 6" by (simp add: shuffle_length ROOM_TYPES_def)
  have u: "unit_draw (specialDraw d)" using ok by (simp add: draws_ok_def)
  have r: "0 \<le> randomInt 0 2 (specialDraw d) \<and> randomInt 0 2 (specialDraw d) \<le> 2"
    by (rule randomInt_range[OF u]) simp
  then have r3: "randomInt 0 2 (specialDraw d) \<in> {0, 1, 2}" by auto
  have types: "map roomType (nodes g) =
               (if randomInt 0 2 (specialDraw d) = 0
                then ?sh[nat (indexOf ?sh Empty) := Special] else ?sh)"
  proof (cases "randomInt 0 2 (specialDraw d) = 0")
    case True
    have "stockedTypes d = stockTypes ?sh True" unfolding stockedTypes_def using True by simp
    then show ?thesis
      using True generate_nodes(2)[OF gen] stockTypes_True[OF E] by simp
  next
    case False
    have "stockedTypes d = stockTypes ?sh False" unfolding stockedTypes_def using False by simp
    then show ?thesis
      using False generate_nodes(2)[OF gen] stockTypes_False[of ?sh] by simp
  qed
  have first: "nat (indexOf ?sh Empty) < 6" using p len by simp
  show ?thesis
    unfolding Let_def
  proof (intro conjI)
    show "?sh = map ((!) ROOM_TYPES) (shuffle (shuffleDraw d) [0..<6])" by (rule u1)
    show "mset (shuffle (shuffleDraw d) [0..<6]) = mset [0..<6]" by (rule u2)
    show "\<forall>i. shuffleRoll (shuffleDraw d) i \<le> i" by (rule u3)
    show "\<forall>us. (\<forall>i. unit_draw (us i)) \<longrightarrow>
            (shuffle us [0..<6] = shuffle (shuffleDraw d) [0..<6]) =
            (\<forall>i \<in> {1..5}. shuffleRoll us i = shuffleRoll (shuffleDraw d) i)" by (rule u4)
    show "\<forall>p. mset p = mset [0..<6] \<longrightarrow>
            (\<exists>us. (\<forall>i. unit_draw (us i)) \<and> shuffle us [0..<6] = p)" by (rule u5)
    show "mset ?sh = mset ROOM_TYPES" by (rule sh)
    show "nat (indexOf ?sh Empty) < 6" by (rule first)
    show "?sh ! nat (indexOf ?sh Empty) = Empty" using p by blast
    show "\<forall>j < nat (indexOf ?sh Empty). ?sh ! j \<noteq> Empty" using p by blast
    show "randomInt 0 2 (specialDraw d) \<in> {0, 1, 2}" by (rule r3)
    show "(randomInt 0 2 (specialDraw d) = 0) = (specialDraw d < 1 / 3)"
      by (rule randomInt_third[OF u])
    show "map roomType (nodes g) =
               (if randomInt 0 2 (specialDraw d) = 0
                then ?sh[nat (indexOf ?sh Empty) := Special] else ?sh)"
      by (rule types)
  qed
qed

lemma sample_shuffled:
  "shuffle (shuffleDraw (sampleDraws u)) ROOM_TYPES =
     [MonsterTreasure, Monster, Treasure, Empty, Empty, Empty]"
  using shuffle_sample by (simp add: sampleDraws_def)

lemma sample_roll: "randomInt 0 2 (specialDraw (sampleDraws (1 / 6))) = 0"
  by (simp add: sampleDraws_def randomInt_def)

lemma sample_first: "indexOf [MonsterTreasure, Monster, Treasure, Empty, Empty, Empty] Empty = 3"
  by (simp add: Let_def)

lemma sample_update:
  "[MonsterTreasure, Monster, Treasure, Empty, Empty, Empty][nat 3 := Special] =
   [MonsterTreasure, Monster, Treasure, Special, Empty, Empty]"
  by (simp add: eval_nat_numeral)

theorem special_upgrade_first_empty_witness:
  "draws_ok (sampleDraws (1 / 6)) \<and>
   (\<exists>g. generateBiteSizedDungeon None (sampleDraws (1 / 6)) = Inr g \<and>
     map roomType (nodes g) = [MonsterTreasure, Monster, Treasure, Special, Empty, Empty])"
proof -
  have ok: "draws_ok (sampleDraws (1 / 6))" by (rule sampleDraws_ok) simp_all
  obtain g where g: "generateBiteSizedDungeon None (sampleDraws (1 / 6)) = Inr g"
    using generate_returns[OF ok sampleDraws_ids_ok] by blast
  note t = special_upgrade_first_empty[OF ok g]
  note t5 = t[THEN conjunct2, THEN conjunct2, THEN conjunct2, THEN conjunct2, THEN conjunct2]
  have "map roomType (nodes g) =
          (if (0::int) = 0
           then [MonsterTreasure, Monster, Treasure, Empty, Empty, Empty][nat 3 := Special]
           else [MonsterTreasure, Monster, Treasure, Empty, Empty, Empty])"
    using t5
    unfolding Let_def sample_shuffled sample_roll sample_first
    by (rule conjunct2[OF conjunct2[OF conjunct2[OF conjunct2[OF conjunct2[OF conjunct2]]]]])
  then have "map roomType (nodes g) =
      [MonsterTreasure, Monster, Treasure, Special, Empty, Empty]"
    unfolding sample_update by simp
  with g have "\<exists>g. generateBiteSizedDungeon None (sampleDraws (1 / 6)) = Inr g \<and>
     map roomType (nodes g) = [MonsterTreasure, Monster, Treasure, Special, Empty, Empty]"
    by (intro exI[of _ g] conjI)
  with ok show ?thesis by (rule conjI)
qed

lemma roll_sixth: "randomInt 0 2 (1 / 6) = 0"
  by (simp add: randomInt_def)

lemma roll_half: "randomInt 0 2 (1 / 2) = 1"
  by (simp add: randomInt_def)

lemma roll_five_sixths: "randomInt 0 2 (5 / 6) = 2"
  by (simp add: randomInt_def)

lemma stock_sample:
  "stockTypes [MonsterTreasure, Monster, Treasure, Empty, Empty, Empty] True =
     [MonsterTreasure, Monster, Treasure, Special, Empty, Empty]"
  by (simp add: stockTypes_def enumerate_eq_zip upt_rec Let_def)

text \<open>
  Against C3 as stated: for the shuffle draws that leave the six types in place,
  empty rooms are at the positions 3, 4 and 5. Of the three values of the roll (taken
  here at the draws 1/6, 1/2 and 5/6) one upgrades, not one of two; and the upgrade
  lands on position 3, the first, while no value of the roll upgrades position 4 or 5.
\<close>

theorem special_upgrade_not_uniform:
  "shuffle (\<lambda>i. 9 / 10) ROOM_TYPES = [MonsterTreasure, Monster, Treasure, Empty, Empty, Empty] \<and>
   randomInt 0 2 (1 / 6) = 0 \<and> randomInt 0 2 (1 / 2) = 1 \<and> randomInt 0 2 (5 / 6) = 2 \<and>
   stockTypes (shuffle (\<lambda>i. 9 / 10) ROOM_TYPES) (randomInt 0 2 (1 / 6) = 0) =
     [MonsterTreasure, Monster, Treasure, Special, Empty, Empty] \<and>
   stockTypes (shuffle (\<lambda>i. 9 / 10) ROOM_TYPES) (randomInt 0 2 (1 / 2) = 0) =
     [MonsterTreasure, Monster, Treasure, Empty, Empty, Empty] \<and>
   stockTypes (shuffle (\<lambda>i. 9 / 10) ROOM_TYPES) (randomInt 0 2 (5 / 6) = 0) =
     [MonsterTreasure, Monster, Treasure, Empty, Empty, Empty]"
  unfolding shuffle_sample roll_sixth roll_half roll_five_sixths
  by (simp add: stock_sample stockTypes_False)

theorem generateBiteSizedDungeon_shape_witness:
  "draws_ok (sampleDraws (1 / 2)) \<and>
   (\<exists>g. generateBiteSizedDungeon None (sampleDraws (1 / 2)) = Inr g \<and>
     length (nodes g) = 6 \<and> length (links g) = 6 \<and>
     connected_graph (map node_id (nodes g)) (map link_pair (links g)) \<and>
     has_cycle (map link_pair (links g)))"
proof -
  have ok: "draws_ok (sampleDraws (1 / 2))" by (rule sampleDraws_ok) simp_all
  obtain g where g: "generateBiteSizedDungeon None (sampleDraws (1 / 2)) = Inr g"
    using generate_returns[OF ok sampleDraws_ids_ok] by blast
  have all: "length (nodes g) = 6 \<and> length (links g) = 6 \<and>
         connected_graph (map node_id (nodes g)) (map link_pair (links g)) \<and>
         has_cycle (map link_pair (links g)) \<and>
         (\<exists>n \<in> set (nodes g). entrance n = Some True) \<and>
         (mset (map roomType (nodes g)) =
            {#MonsterTreasure, Monster, Treasure, Empty, Empty, Empty#} \<or>
          mset (map roomType (nodes g)) =
            {#MonsterTreasure, Monster, Treasure, Empty, Empty, Special#})"
    by (rule generateBiteSizedDungeon_shape[OF ok g])
  have "generateBiteSizedDungeon None (sampleDraws (1 / 2)) = Inr g \<and>
     length (nodes g) = 6 \<and> length (links g) = 6 \<and>
     connected_graph (map node_id (nodes g)) (map link_pair (links g)) \<and>
     has_cycle (map link_pair (links g))"
    using g all by (intro conjI) (elim conjE, assumption)+
  then have "\<exists>g. generateBiteSizedDungeon None (sampleDraws (1 / 2)) = Inr g \<and>
     length (nodes g) = 6 \<and> length (links g) = 6 \<and>
     connected_graph (map node_id (nodes g)) (map link_pair (links g)) \<and>
     has_cycle (map link_pair (links g))"
    by (rule exI)
  with ok show ?thesis by (rule conjI)
qed



section \<open>Exploding a room\<close>

lemma generate_link_ends:
  assumes "generateBiteSizedDungeon s d = Inr sub" and "l \<in> set (links sub)"
  shows "source l \<in> set (freshIds d) \<and> target l \<in> set (freshIds d)"
proof -
  from generate_links[OF assms(1)] obtain L where L: "L \<in> set LAYOUTS"
    and lp: "map link_pair (links sub) = map (map_prod ((!) (freshIds d)) ((!) (freshIds d))) L"
    by blast
  have Lok: "layout_ok L" using LAYOUTS_ok L by blast
  have "link_pair l \<in> set (map link_pair (links sub))" using assms(2) by simp
  then obtain e where e: "e \<in> set L" "link_pair l = map_prod ((!) (freshIds d)) ((!) (freshIds d)) e"
    unfolding lp by auto
  have b: "fst e < 6 \<and> snd e < 6" by (rule layout_ok_bounds[OF Lok e(1)])
  have "source l = freshIds d ! fst e" "target l = freshIds d ! snd e"
    using e(2) by (simp_all add: link_pair_def map_prod_def case_prod_unfold)
  then show ?thesis using b by (simp add: freshIds_length)
qed

lemma replace_result:
  assumes f: "find (\<lambda>n. node_id n = R) (nodes g) = Some node"
    and gen: "generateBiteSizedDungeon None d = Inr sub"
  shows "\<exists>newNodes. map node_id newNodes = freshIds d \<and>
     replaceNodeWithDungeon g R d =
       Inr (\<lparr> nodes = filter (\<lambda>n. node_id n \<noteq> R) (nodes g) @ newNodes,
              links = filter (\<lambda>l. source l \<noteq> R \<and> target l \<noteq> R) (links g) @ links sub @
                      map (reattach R (freshIds d ! 0))
                          (filter (\<lambda>l. source l = R \<or> target l = R) (links g)) \<rparr>,
            freshIds d ! 0)"
proof -
  have b: "node_id (nodes sub ! 0) = freshIds d ! 0"
  proof -
    have "map node_id (nodes sub) ! 0 = freshIds d ! 0"
      using generate_nodes(1)[OF gen] by simp
    moreover have "0 < length (nodes sub)"
      using arg_cong[OF generate_nodes(1)[OF gen], of length] by (simp add: freshIds_length)
    ultimately show ?thesis by simp
  qed
  have same: "map (\<lambda>l. l\<lparr> source := source l, target := target l \<rparr>) (links sub) = links sub"
    by (induction "links sub") (simp_all add: map_idI)
  let ?new = "map (\<lambda>n.
                 let isBridge = (node_id n = freshIds d ! 0);
                     n1 = n\<lparr> parentNodeId := Some R,
                             entrance := (if isBridge then entrance node else Some False) \<rparr>
                 in if isBridge then n1\<lparr> label := label node, content := content node \<rparr>
                    else n1) (nodes sub)"
  have ids: "map node_id ?new = freshIds d"
    unfolding generate_nodes(1)[OF gen, symmetric] by (simp add: Let_def comp_def)
  have "replaceNodeWithDungeon g R d =
       Inr (\<lparr> nodes = filter (\<lambda>n. node_id n \<noteq> R) (nodes g) @ ?new,
              links = filter (\<lambda>l. source l \<noteq> R \<and> target l \<noteq> R) (links g) @ links sub @
                      map (reattach R (freshIds d ! 0))
                          (filter (\<lambda>l. source l = R \<or> target l = R) (links g)) \<rparr>,
            freshIds d ! 0)"
    unfolding replaceNodeWithDungeon_def f gen
    by (simp add: Let_def b same del: map_map)
  then show ?thesis using ids by blast
qed


lemma reattach_fields:
  "source (reattach R b l) = b"
  "target (reattach R b l) = other_end R l"
  "connectionType (reattach R b l) = connectionType l"
  "description (reattach R b l) = description l"
  "clueRoomId (reattach R b l) = clueRoomId l"
  by (simp_all add: reattach_def other_end_def Let_def)

lemma filter_none: "(\<And>x. x \<in> set xs \<Longrightarrow> \<not> P x) \<Longrightarrow> filter P xs = []"
  by (simp add: filter_empty_conv)

lemma filter_all: "(\<And>x. x \<in> set xs \<Longrightarrow> P x) \<Longrightarrow> filter P xs = xs"
  by (simp add: filter_id_conv)

text \<open>
  C1. Let \<open>R\<close> be a room of \<open>g\<close>, and let the draws be those of a call whose six
  minted identifiers are new: different from each other and from every identifier
  of \<open>g\<close>. Then \<open>replaceNodeWithDungeon\<close> returns a graph and the identifier of
  the bridge room, the first minted one. No room of the result has the identifier
  \<open>R\<close>, and the bridge room is a room of it. The connections of the result between
  the bridge room and a room outside the new unit are, in order, the connections of
  \<open>g\<close> that touched \<open>R\<close>: the same far ends, categories, descriptions and
  clue-room references. The rooms of the result outside the new unit are the rooms
  of \<open>g\<close> other than \<open>R\<close>, unchanged, and its connections outside the new unit
  are the connections of \<open>g\<close> that did not touch \<open>R\<close>, unchanged.
\<close>

theorem replaceNodeWithDungeon_preserves:
  assumes present: "R \<in> node_id ` set (nodes g)"
    and ok: "draws_ok d" and ids: "ids_ok d"
    and fresh: "set (freshIds d) \<inter> graph_ids g = {}"
  shows "\<exists>g' bridge.
     replaceNodeWithDungeon g R d = Inr (g', bridge) \<and>
     bridge = freshIds d ! 0 \<and>
     R \<notin> node_id ` set (nodes g') \<and>
     bridge \<in> node_id ` set (nodes g') \<and>
     map (\<lambda>l. (other_end bridge l, connectionType l, description l, clueRoomId l))
         (filter (\<lambda>l. touches bridge l \<and> other_end bridge l \<notin> set (freshIds d)) (links g')) =
       map (\<lambda>l. (other_end R l, connectionType l, description l, clueRoomId l))
           (filter (touches R) (links g)) \<and>
     filter (\<lambda>n. node_id n \<notin> set (freshIds d)) (nodes g') =
       filter (\<lambda>n. node_id n \<noteq> R) (nodes g) \<and>
     filter (\<lambda>l. source l \<notin> set (freshIds d) \<and> target l \<notin> set (freshIds d)) (links g') =
       filter (\<lambda>l. \<not> touches R l) (links g)"
proof -
  let ?F = "set (freshIds d)"
  let ?b = "freshIds d ! 0"
  have "\<not> (\<forall>n \<in> set (nodes g). node_id n \<noteq> R)" using present by auto
  then obtain node where f: "find (\<lambda>n. node_id n = R) (nodes g) = Some node"
    by (cases "find (\<lambda>n. node_id n = R) (nodes g)") (auto simp: find_None_iff)
  obtain sub where gen: "generateBiteSizedDungeon None d = Inr sub"
    using generate_returns[OF ok ids] by blast
  from replace_result[OF f gen] obtain newNodes where
    nn: "map node_id newNodes = freshIds d" and
    res: "replaceNodeWithDungeon g R d =
       Inr (\<lparr> nodes = filter (\<lambda>n. node_id n \<noteq> R) (nodes g) @ newNodes,
              links = filter (\<lambda>l. source l \<noteq> R \<and> target l \<noteq> R) (links g) @ links sub @
                      map (reattach R ?b) (filter (\<lambda>l. source l = R \<or> target l = R) (links g)) \<rparr>,
            ?b)"
    by blast
  let ?A = "filter (\<lambda>l. source l \<noteq> R \<and> target l \<noteq> R) (links g)"
  let ?out = "filter (\<lambda>l. source l = R \<or> target l = R) (links g)"
  let ?C = "map (reattach R ?b) ?out"
  let ?g' = "\<lparr> nodes = filter (\<lambda>n. node_id n \<noteq> R) (nodes g) @ newNodes,
               links = ?A @ links sub @ ?C \<rparr>"
  have oldn: "\<And>n. n \<in> set (nodes g) \<Longrightarrow> node_id n \<notin> ?F"
    using fresh unfolding graph_ids_def by blast
  have oldl: "\<And>l. l \<in> set (links g) \<Longrightarrow> source l \<notin> ?F \<and> target l \<notin> ?F"
    using fresh unfolding graph_ids_def by blast
  have subl: "\<And>l. l \<in> set (links sub) \<Longrightarrow> source l \<in> ?F \<and> target l \<in> ?F"
    by (rule generate_link_ends[OF gen])
  have newn: "\<And>n. n \<in> set newNodes \<Longrightarrow> node_id n \<in> ?F"
  proof -
    fix n assume "n \<in> set newNodes"
    then have "node_id n \<in> set (map node_id newNodes)" by simp
    then show "node_id n \<in> ?F" unfolding nn .
  qed
  have bF: "?b \<in> ?F" by (rule nth_mem) (simp add: freshIds_length)
  have RF: "R \<notin> ?F" using present oldn by blast
  have c1: "R \<notin> node_id ` set (nodes ?g')"
  proof
    assume "R \<in> node_id ` set (nodes ?g')"
    then obtain n where n: "n \<in> set (nodes ?g')" "node_id n = R" by blast
    then have "n \<in> set newNodes" by auto
    then show False using newn n(2) RF by blast
  qed
  have c2: "?b \<in> node_id ` set (nodes ?g')"
  proof -
    have "?b \<in> set (map node_id newNodes)" unfolding nn by (rule bF)
    then show ?thesis by auto
  qed
  let ?P = "\<lambda>l. touches ?b l \<and> other_end ?b l \<notin> ?F"
  have pA: "filter ?P ?A = []"
  proof (rule filter_none)
    fix l assume "l \<in> set ?A"
    then have "l \<in> set (links g)" by simp
    then have "source l \<noteq> ?b \<and> target l \<noteq> ?b" using oldl[of l] bF by auto
    then show "\<not> ?P l" by (simp add: touches_def)
  qed
  have pB: "filter ?P (links sub) = []"
  proof (rule filter_none)
    fix l assume "l \<in> set (links sub)"
    then have "other_end ?b l \<in> ?F" using subl by (simp add: other_end_def)
    then show "\<not> ?P l" by simp
  qed
  have pC: "filter ?P ?C = ?C"
  proof (rule filter_all)
    fix l assume "l \<in> set ?C"
    then obtain old where old: "old \<in> set ?out" "l = reattach R ?b old" by auto
    have og: "old \<in> set (links g)" using old(1) by simp
    have s: "source l = ?b" unfolding old(2) by (rule reattach_fields(1))
    have "other_end ?b l = target l" using s by (simp add: other_end_def)
    also have "\<dots> = other_end R old" unfolding old(2) by (rule reattach_fields(2))
    finally have oe: "other_end ?b l = other_end R old" .
    have "other_end R old \<notin> ?F" using oldl[OF og] by (simp add: other_end_def)
    then show "?P l" using s oe by (simp add: touches_def)
  qed
  have out_eq: "?out = filter (touches R) (links g)"
    by (rule filter_cong) (simp_all add: touches_def)
  have meta: "map (\<lambda>l. (other_end ?b l, connectionType l, description l, clueRoomId l)) ?C =
      map (\<lambda>l. (other_end R l, connectionType l, description l, clueRoomId l)) ?out"
    by (simp add: comp_def reattach_fields other_end_def[of ?b])
  have c3: "map (\<lambda>l. (other_end ?b l, connectionType l, description l, clueRoomId l))
         (filter ?P (links ?g')) =
       map (\<lambda>l. (other_end R l, connectionType l, description l, clueRoomId l))
           (filter (touches R) (links g))"
  proof -
    have "filter ?P (links ?g') = ?C"
      using pA pB pC by (simp only: GraphData.simps filter_append append_Nil)
    then show ?thesis using meta out_eq by simp
  qed
  have c4: "filter (\<lambda>n. node_id n \<notin> ?F) (nodes ?g') = filter (\<lambda>n. node_id n \<noteq> R) (nodes g)"
  proof -
    have a: "filter (\<lambda>n. node_id n \<notin> ?F) (filter (\<lambda>n. node_id n \<noteq> R) (nodes g)) =
             filter (\<lambda>n. node_id n \<noteq> R) (nodes g)"
      by (rule filter_all) (use oldn in simp)
    have b: "filter (\<lambda>n. node_id n \<notin> ?F) newNodes = []"
      by (rule filter_none) (use newn in simp)
    show ?thesis using a b by (simp only: GraphData.simps filter_append append_Nil2)
  qed
  have c5: "filter (\<lambda>l. source l \<notin> ?F \<and> target l \<notin> ?F) (links ?g') =
            filter (\<lambda>l. \<not> touches R l) (links g)"
  proof -
    let ?Q = "\<lambda>l. source l \<notin> ?F \<and> target l \<notin> ?F"
    have a: "filter ?Q ?A = ?A" by (rule filter_all) (use oldl in simp)
    have b: "filter ?Q (links sub) = []" by (rule filter_none) (use subl in simp)
    have c: "filter ?Q ?C = []"
    proof (rule filter_none)
      fix l assume "l \<in> set ?C"
      then obtain old where "l = reattach R ?b old" by auto
      then have "source l = ?b" by (simp add: reattach_fields)
      then show "\<not> ?Q l" using bF by simp
    qed
    have e: "?A = filter (\<lambda>l. \<not> touches R l) (links g)"
      by (rule filter_cong) (simp_all add: touches_def)
    have "filter ?Q (links ?g') = ?A"
      using a b c by (simp only: GraphData.simps filter_append append_Nil2)
    then show ?thesis using e by simp
  qed
  show ?thesis
    apply (rule exI[of _ ?g'])
    apply (rule exI[of _ ?b])
    apply (intro conjI)
          apply (rule res)
         apply (rule refl)
        apply (rule c1)
       apply (rule c2)
      apply (rule c3)
     apply (rule c4)
    apply (rule c5)
    done
qed


lemma sample_fresh:
  assumes "x \<in> set (freshIds (sampleDraws u))"
  shows "\<exists>k. x = ''room-x'' @ replicate k CHR ''x''"
proof -
  from assms obtain k where "x = generateId (idDraw (sampleDraws u) k)"
    unfolding freshIds_def by auto
  then have "x = ''room-x'' @ replicate k CHR ''x''"
    by (simp add: generateId_def sampleDraws_def)
  then show ?thesis by blast
qed

lemma clueGraph_ids: "graph_ids clueGraph = {''room-r'', ''room-a''}"
  by (auto simp: graph_ids_def clueGraph_def room_def)

lemma sample_fresh_clueGraph: "set (freshIds (sampleDraws u)) \<inter> graph_ids clueGraph = {}"
proof -
  have "\<And>x. x \<in> set (freshIds (sampleDraws u)) \<Longrightarrow> x \<noteq> ''room-r'' \<and> x \<noteq> ''room-a''"
  proof -
    fix x assume "x \<in> set (freshIds (sampleDraws u))"
    then obtain k where "x = ''room-x'' @ replicate k CHR ''x''" using sample_fresh by blast
    then show "x \<noteq> ''room-r'' \<and> x \<noteq> ''room-a''" by simp
  qed
  then show ?thesis unfolding clueGraph_ids by blast
qed

theorem replaceNodeWithDungeon_preserves_witness:
  "''room-r'' \<in> node_id ` set (nodes clueGraph) \<and>
   draws_ok (sampleDraws (1 / 2)) \<and> ids_ok (sampleDraws (1 / 2)) \<and>
   set (freshIds (sampleDraws (1 / 2))) \<inter> graph_ids clueGraph = {} \<and>
   (\<exists>g' bridge.
     replaceNodeWithDungeon clueGraph ''room-r'' (sampleDraws (1 / 2)) = Inr (g', bridge) \<and>
     bridge = freshIds (sampleDraws (1 / 2)) ! 0 \<and>
     ''room-r'' \<notin> node_id ` set (nodes g') \<and>
     bridge \<in> node_id ` set (nodes g') \<and>
     map (\<lambda>l. (other_end bridge l, connectionType l, description l, clueRoomId l))
         (filter (\<lambda>l. touches bridge l \<and> other_end bridge l \<notin> set (freshIds (sampleDraws (1 / 2))))
                 (links g')) =
       map (\<lambda>l. (other_end ''room-r'' l, connectionType l, description l, clueRoomId l))
           (filter (touches ''room-r'') (links clueGraph)) \<and>
     filter (\<lambda>n. node_id n \<notin> set (freshIds (sampleDraws (1 / 2)))) (nodes g') =
       filter (\<lambda>n. node_id n \<noteq> ''room-r'') (nodes clueGraph) \<and>
     filter (\<lambda>l. source l \<notin> set (freshIds (sampleDraws (1 / 2))) \<and>
                  target l \<notin> set (freshIds (sampleDraws (1 / 2)))) (links g') =
       filter (\<lambda>l. \<not> touches ''room-r'' l) (links clueGraph))"
proof -
  have p: "''room-r'' \<in> node_id ` set (nodes clueGraph)"
    by (simp add: clueGraph_def room_def)
  have ok: "draws_ok (sampleDraws (1 / 2))" by (rule sampleDraws_ok) simp_all
  show ?thesis
    apply (intro conjI)
        apply (rule p)
       apply (rule ok)
      apply (rule sampleDraws_ids_ok)
     apply (rule sample_fresh_clueGraph)
    apply (rule replaceNodeWithDungeon_preserves[OF p ok sampleDraws_ids_ok sample_fresh_clueGraph])
    done
qed

text \<open>
  C10. In \<open>clueGraph\<close> a secret connection joins the rooms room-r and room-a, and
  its clue is in room-r. Exploding room-r returns a graph with the re-created
  connection from the bridge room to room-a, whose clue-room reference is still
  room-r, copied as it was, and in which no room has the identifier room-r.
\<close>

theorem replace_leaves_dangling_clue:
  assumes ok: "draws_ok d" and ids: "ids_ok d"
    and fresh: "set (freshIds d) \<inter> graph_ids clueGraph = {}"
  shows "\<exists>g' bridge.
     replaceNodeWithDungeon clueGraph ''room-r'' d = Inr (g', bridge) \<and>
     \<lparr> source = bridge, target = ''room-a'', connectionType = Secret,
       description = None, clueRoomId = Some ''room-r'' \<rparr> \<in> set (links g') \<and>
     ''room-r'' \<notin> node_id ` set (nodes g')"
proof -
  let ?b = "freshIds d ! 0"
  have f: "find (\<lambda>n. node_id n = ''room-r'') (nodes clueGraph) = Some (room ''room-r'')"
    by (simp add: clueGraph_def room_def)
  obtain sub where gen: "generateBiteSizedDungeon None d = Inr sub"
    using generate_returns[OF ok ids] by blast
  from replace_result[OF f gen] obtain newNodes where
    nn: "map node_id newNodes = freshIds d" and
    res: "replaceNodeWithDungeon clueGraph ''room-r'' d =
       Inr (\<lparr> nodes = filter (\<lambda>n. node_id n \<noteq> ''room-r'') (nodes clueGraph) @ newNodes,
              links = filter (\<lambda>l. source l \<noteq> ''room-r'' \<and> target l \<noteq> ''room-r'') (links clueGraph) @
                      links sub @
                      map (reattach ''room-r'' ?b)
                        (filter (\<lambda>l. source l = ''room-r'' \<or> target l = ''room-r'') (links clueGraph)) \<rparr>,
            ?b)"
    by blast
  let ?g' = "\<lparr> nodes = filter (\<lambda>n. node_id n \<noteq> ''room-r'') (nodes clueGraph) @ newNodes,
              links = filter (\<lambda>l. source l \<noteq> ''room-r'' \<and> target l \<noteq> ''room-r'') (links clueGraph) @
                      links sub @
                      map (reattach ''room-r'' ?b)
                        (filter (\<lambda>l. source l = ''room-r'' \<or> target l = ''room-r'') (links clueGraph)) \<rparr>"
  have l: "\<lparr> source = ?b, target = ''room-a'', connectionType = Secret,
       description = None, clueRoomId = Some ''room-r'' \<rparr> \<in> set (links ?g')"
    by (simp add: clueGraph_def reattach_def)
  have "''room-r'' \<notin> set (freshIds d)" using fresh unfolding clueGraph_ids by blast
  then have "''room-r'' \<notin> node_id ` set newNodes"
    using arg_cong[OF nn, of set] by simp
  then have n: "''room-r'' \<notin> node_id ` set (nodes ?g')"
    by (auto simp: clueGraph_def room_def)
  show ?thesis
    apply (rule exI[of _ ?g'])
    apply (rule exI[of _ ?b])
    apply (intro conjI)
      apply (rule res)
     apply (rule l)
    apply (rule n)
    done
qed

theorem replace_leaves_dangling_clue_witness:
  "draws_ok (sampleDraws (1 / 2)) \<and> ids_ok (sampleDraws (1 / 2)) \<and>
   set (freshIds (sampleDraws (1 / 2))) \<inter> graph_ids clueGraph = {} \<and>
   (\<exists>g' bridge.
     replaceNodeWithDungeon clueGraph ''room-r'' (sampleDraws (1 / 2)) = Inr (g', bridge) \<and>
     \<lparr> source = bridge, target = ''room-a'', connectionType = Secret,
       description = None, clueRoomId = Some ''room-r'' \<rparr> \<in> set (links g') \<and>
     ''room-r'' \<notin> node_id ` set (nodes g'))"
proof -
  have ok: "draws_ok (sampleDraws (1 / 2))" by (rule sampleDraws_ok) simp_all
  show ?thesis
    apply (intro conjI)
       apply (rule ok)
      apply (rule sampleDraws_ids_ok)
     apply (rule sample_fresh_clueGraph)
    apply (rule replace_leaves_dangling_clue[OF ok sampleDraws_ids_ok sample_fresh_clueGraph])
    done
qed

section \<open>Identifiers that are not in the graph\<close>

lemma updateNode_absent:
  assumes "nodeId \<notin> node_id ` set (nodes g)"
  shows "updateNode g nodeId updates = g"
proof -
  have "map (\<lambda>n. if node_id n = nodeId then applyNodeUpdates n updates else n) (nodes g) = nodes g"
    by (rule map_idI) (use assms in auto)
  then show ?thesis by (simp add: updateNode_def)
qed

lemma updateEdge_absent:
  assumes "normKey src tgt \<notin> (\<lambda>l. normKey (source l) (target l)) ` set (links g)"
  shows "updateEdge g src tgt updates = g"
proof -
  have "map (\<lambda>l. if normKey (source l) (target l) = normKey src tgt
                  then applyLinkUpdates l updates else l) (links g) = links g"
  proof (rule map_idI)
    fix l assume "l \<in> set (links g)"
    then have "normKey (source l) (target l) \<noteq> normKey src tgt"
      using assms by force
    then show "(if normKey (source l) (target l) = normKey src tgt
                then applyLinkUpdates l updates else l) = l" by simp
  qed
  then show ?thesis by (simp add: updateEdge_def)
qed

lemma attachDungeon_absent:
  assumes "nodeId \<notin> node_id ` set (nodes g)"
  shows "attachDungeon g nodeId d c = Inr g"
proof -
  have "find (\<lambda>n. node_id n = nodeId) (nodes g) = None"
    using assms by (auto simp: find_None_iff)
  then show ?thesis by (simp add: attachDungeon_def)
qed

lemma replaceNodeWithDungeon_absent:
  assumes "nodeId \<notin> node_id ` set (nodes g)"
  shows "replaceNodeWithDungeon g nodeId d = Inr (g, nodeId)"
proof -
  have "find (\<lambda>n. node_id n = nodeId) (nodes g) = None"
    using assms by (auto simp: find_None_iff)
  then show ?thesis by (simp add: replaceNodeWithDungeon_def)
qed

text \<open>
  C4, at the input where the code departs from it. \<open>oneRoom\<close> has the single room
  room-a and no room room-z. \<open>addEdge\<close> does not return the graph unchanged: it
  appends a connection from room-a to room-z, an end that is no room of the result.
\<close>

theorem addEdge_absent_room:
  "links (addEdge oneRoom ''room-a'' ''room-z'' Open) =
     [\<lparr> source = ''room-a'', target = ''room-z'', connectionType = Open,
        description = None, clueRoomId = None \<rparr>] \<and>
   map node_id (nodes (addEdge oneRoom ''room-a'' ''room-z'' Open)) = [''room-a''] \<and>
   addEdge oneRoom ''room-a'' ''room-z'' Open \<noteq> oneRoom"
proof -
  have e: "addEdge oneRoom ''room-a'' ''room-z'' Open =
     oneRoom\<lparr> links := [\<lparr> source = ''room-a'', target = ''room-z'', connectionType = Open,
        description = None, clueRoomId = None \<rparr>] \<rparr>"
    by (simp add: addEdge_def oneRoom_def)
  show ?thesis unfolding e by (simp add: oneRoom_def room_def)
qed


section \<open>The search of the bridge detection\<close>

lemma bfs_closure:
  assumes "set queue \<subseteq> visited" "visited \<subseteq> (adj_rel adj)\<^sup>* `` {s}" "s \<in> visited"
    and "\<forall>v \<in> visited - set queue. adj_rel adj `` {v} \<subseteq> visited"
  shows "bfs adj visited queue = (adj_rel adj)\<^sup>* `` {s}"
  using assms
proof (induction adj visited queue rule: bfs.induct)
  case (1 adj visited)
  have "(adj_rel adj)\<^sup>* `` {s} \<subseteq> visited"
  proof
    fix x assume "x \<in> (adj_rel adj)\<^sup>* `` {s}"
    then have "(s, x) \<in> (adj_rel adj)\<^sup>*" by simp
    then show "x \<in> visited"
    proof (induction rule: rtrancl_induct)
      case base
      then show ?case using 1(3) .
    next
      case (step y z)
      then have "z \<in> adj_rel adj `` {y}" by blast
      then show ?case using 1(4) step(3) by auto
    qed
  qed
  then show ?case using 1(2) by simp
next
  case (2 adj visited ident queue)
  obtain v' q' where vn: "visitNeighbours (adjGet adj ident) (visited, queue) = (v', q')"
    by (cases "visitNeighbours (adjGet adj ident) (visited, queue)")
  note r = visitNeighbours_sets[OF vn]
  have idv: "ident \<in> visited" using 2(2) by simp
  have succ: "adj_rel adj `` {ident} = set (adjGet adj ident)"
    by (auto simp: adj_rel_def)
  have a: "set q' \<subseteq> v'" using r 2(2) by auto
  have b: "v' \<subseteq> (adj_rel adj)\<^sup>* `` {s}"
  proof
    fix x assume "x \<in> v'"
    then consider "x \<in> visited" | "x \<in> set (adjGet adj ident)" using r by auto
    then show "x \<in> (adj_rel adj)\<^sup>* `` {s}"
    proof cases
      case 1
      then show ?thesis using 2(3) by blast
    next
      case 2
      then have "(ident, x) \<in> adj_rel adj" by (simp add: adj_rel_def)
      moreover have "(s, ident) \<in> (adj_rel adj)\<^sup>*" using idv "2.prems"(2) by blast
      ultimately show ?thesis by auto
    qed
  qed
  have c: "s \<in> v'" using r 2(4) by simp
  have d: "\<forall>v \<in> v' - set q'. adj_rel adj `` {v} \<subseteq> v'"
  proof
    fix v assume v: "v \<in> v' - set q'"
    then have vv: "v \<in> visited" "v \<notin> set queue" using r by auto
    show "adj_rel adj `` {v} \<subseteq> v'"
    proof (cases "v = ident")
      case True
      then show ?thesis using succ r by simp
    next
      case False
      then have "v \<in> visited - set (ident # queue)" using vv by simp
      then have "adj_rel adj `` {v} \<subseteq> visited" using 2(5) by blast
      then show ?thesis using r by blast
    qed
  qed
  have "bfs adj v' q' = (adj_rel adj)\<^sup>* `` {s}"
    by (rule 2(1)[OF vn[symmetric] a b c d])
  then show ?case by (simp add: vn)
qed

lemma bfs_reach: "bfs adj {s} [s] = (adj_rel adj)\<^sup>* `` {s}"
  by (rule bfs_closure) simp_all

lemma adjGet_update:
  "adjGet (AList.update a ns adj) x = (if x = a then ns else adjGet adj x)"
  by (simp add: adjGet_def update_conv')

lemma adjPush_Some:
  assumes "adjPush adj a b = Some adj'"
  shows "adj_rel adj' = insert (a, b) (adj_rel adj)" and "dom (map_of adj') = dom (map_of adj)"
proof -
  from assms obtain ns where ns: "map_of adj a = Some ns" "adj' = AList.update a (ns @ [b]) adj"
    by (auto simp: adjPush_def split: option.splits)
  have g: "adjGet adj a = ns" using ns(1) by (simp add: adjGet_def)
  show "adj_rel adj' = insert (a, b) (adj_rel adj)"
    unfolding adj_rel_def ns(2) using g by (auto simp: adjGet_update split: if_splits)
  show "dom (map_of adj') = dom (map_of adj)"
    unfolding ns(2) using ns(1) by (auto simp: update_conv')
qed

lemma adjPush_defined:
  assumes "a \<in> dom (map_of adj)"
  shows "\<exists>adj'. adjPush adj a b = Some adj'"
  using assms by (auto simp: adjPush_def)

lemma link_rel_Cons: "link_rel (e # es) = insert e (insert (snd e, fst e) (link_rel es))"
  by (auto simp: link_rel_def)

lemma buildAdj_rel:
  "buildAdj e ls adj = Some adj' \<Longrightarrow>
     adj_rel adj' = adj_rel adj \<union> link_rel (without_pair e ls) \<and>
     dom (map_of adj') = dom (map_of adj)"
proof (induction e ls adj rule: buildAdj.induct)
  case (1 s t adj)
  then show ?case by (simp add: without_pair_def link_rel_def)
next
  case (2 s t es et rest adj)
  show ?case
  proof (cases "(es = s \<and> et = t) \<or> (es = t \<and> et = s)")
    case True
    then have "buildAdj (s, t) rest adj = Some adj'" using 2(3) by simp
    note ih = 2(1)[OF True this]
    have "same_pair (s, t) (es, et)" using True by (simp add: same_pair_def)
    then have w: "without_pair (s, t) ((es, et) # rest) = without_pair (s, t) rest"
      by (simp add: without_pair_def)
    show ?thesis unfolding w by (rule ih)
  next
    case False
    from 2(3) False obtain adj1 adj2 where
      p1: "adjPush adj es et = Some adj1" and p2: "adjPush adj1 et es = Some adj2"
      and rest: "buildAdj (s, t) rest adj2 = Some adj'"
      by (auto split: option.splits)
    note ih = 2(2)[OF False p1 p2 rest]
    have "\<not> same_pair (s, t) (es, et)" using False by (simp add: same_pair_def)
    then have w: "without_pair (s, t) ((es, et) # rest) = (es, et) # without_pair (s, t) rest"
      by (simp add: without_pair_def)
    have "adj_rel adj2 = insert (et, es) (insert (es, et) (adj_rel adj))"
      using adjPush_Some(1)[OF p1] adjPush_Some(1)[OF p2] by simp
    moreover have "dom (map_of adj2) = dom (map_of adj)"
      using adjPush_Some(2)[OF p1] adjPush_Some(2)[OF p2] by simp
    ultimately show ?thesis using ih unfolding w link_rel_Cons by auto
  qed
qed

lemma buildAdj_defined:
  "(\<forall>l \<in> set ls. fst l \<in> dom (map_of adj) \<and> snd l \<in> dom (map_of adj)) \<Longrightarrow>
     \<exists>adj'. buildAdj e ls adj = Some adj'"
proof (induction e ls adj rule: buildAdj.induct)
  case (1 s t adj)
  then show ?case by simp
next
  case (2 s t es et rest adj)
  show ?case
  proof (cases "(es = s \<and> et = t) \<or> (es = t \<and> et = s)")
    case True
    have "\<exists>adj'. buildAdj (s, t) rest adj = Some adj'"
      by (rule 2(1)[OF True]) (use 2(3) in simp)
    moreover have "buildAdj (s, t) ((es, et) # rest) adj = buildAdj (s, t) rest adj"
      by (simp only: buildAdj.simps if_P[OF True])
    ultimately show ?thesis by simp
  next
    case False
    have "es \<in> dom (map_of adj)" using 2(3) by simp
    then obtain adj1 where p1: "adjPush adj es et = Some adj1" using adjPush_defined by blast
    have d1: "dom (map_of adj1) = dom (map_of adj)" by (rule adjPush_Some(2)[OF p1])
    have "et \<in> dom (map_of adj1)" using 2(3) d1 by simp
    then obtain adj2 where p2: "adjPush adj1 et es = Some adj2" using adjPush_defined by blast
    have d2: "dom (map_of adj2) = dom (map_of adj)" using adjPush_Some(2)[OF p2] d1 by simp
    have "\<exists>adj'. buildAdj (s, t) rest adj2 = Some adj'"
      by (rule 2(2)[OF False p1 p2]) (use 2(3) d2 in simp)
    moreover have "buildAdj (s, t) ((es, et) # rest) adj = buildAdj (s, t) rest adj2"
      by (simp only: buildAdj.simps if_not_P[OF False] p1 p2 option.case)
    ultimately show ?thesis by simp
  qed
qed

lemma initial_adj:
  fixes nodeIds :: "string list"
  defines "adj0 \<equiv> map (\<lambda>ident. (ident, [] :: string list)) nodeIds"
  shows "adj_rel adj0 = {}" and "dom (map_of adj0) = set nodeIds"
proof -
  have "\<And>a. adjGet adj0 a = []"
  proof -
    fix a
    show "adjGet adj0 a = []"
    proof (cases "map_of adj0 a")
      case None
      show ?thesis unfolding adjGet_def None by simp
    next
      case (Some ns)
      then have "(a, ns) \<in> set adj0" by (rule map_of_SomeD)
      then have "ns = []" unfolding adj0_def by auto
      then show ?thesis unfolding adjGet_def Some by simp
    qed
  qed
  then show "adj_rel adj0 = {}" by (simp add: adj_rel_def)
  show "dom (map_of adj0) = set nodeIds"
    unfolding adj0_def by (simp add: dom_map_of_conv_image_fst image_comp comp_def)
qed

lemma bridgeStep_result:
  assumes ends: "\<forall>l \<in> set ls. fst l \<in> set nodeIds \<and> snd l \<in> set nodeIds"
  shows "bridgeStep nodeIds ls e K =
           Inr (if \<not> joined (without_pair e ls) (fst e) (snd e)
                then insert (normKey (fst e) (snd e)) K else K)"
proof -
  let ?adj0 = "map (\<lambda>ident. (ident, [])) nodeIds"
  obtain adj where adj: "buildAdj e ls ?adj0 = Some adj"
    using buildAdj_defined[of ls ?adj0 e] ends by (auto simp: initial_adj(2))
  have rel: "adj_rel adj = link_rel (without_pair e ls)"
    using buildAdj_rel[OF adj] by (simp add: initial_adj(1))
  have "snd e \<notin> bfs adj {fst e} [fst e] \<longleftrightarrow> \<not> joined (without_pair e ls) (fst e) (snd e)"
    unfolding bfs_reach rel joined_def by simp
  then show ?thesis unfolding bridgeStep_def adj by (simp add: Let_def)
qed

lemma bridgeLoop_result:
  assumes ends: "\<forall>l \<in> set ls. fst l \<in> set nodeIds \<and> snd l \<in> set nodeIds"
  shows "bridgeLoop nodeIds ls todo K =
           Inr (K \<union> (\<lambda>e. normKey (fst e) (snd e)) `
                      {e \<in> set todo. \<not> joined (without_pair e ls) (fst e) (snd e)})"
proof (induction todo arbitrary: K)
  case Nil
  then show ?case by simp
next
  case (Cons e rest)
  let ?k = "\<lambda>e. normKey (fst e) (snd e)"
  let ?B = "\<lambda>todo. {e \<in> set todo. \<not> joined (without_pair e ls) (fst e) (snd e)}"
  have split: "?B (e # rest) =
     (if \<not> joined (without_pair e ls) (fst e) (snd e) then insert e (?B rest) else ?B rest)"
    by auto
  have "(if \<not> joined (without_pair e ls) (fst e) (snd e) then insert (?k e) K else K) \<union> ?k ` ?B rest
        = K \<union> ?k ` ?B (e # rest)"
    unfolding split by (cases "joined (without_pair e ls) (fst e) (snd e)") simp_all
  then show ?case
    unfolding bridgeLoop.simps bridgeStep_result[OF ends] sum.case Cons.IH by simp
qed

lemma same_pair_without:
  assumes "same_pair e e'"
  shows "without_pair e' ls = without_pair e ls"
  unfolding without_pair_def
  by (rule filter_cong) (use assms in \<open>auto simp: same_pair_def\<close>)

lemma same_pair_joined:
  assumes "same_pair e e'"
  shows "joined es (fst e') (snd e') = joined es (fst e) (snd e)"
  using assms joined_sym[of es "fst e" "snd e"] joined_sym[of es "snd e" "fst e"]
  by (auto simp: same_pair_def)

text \<open>
  What the search computes. When both ends of every link are node identifiers, the
  function returns, and the keys it returns are those of the links whose two ends
  are not joined once every link joining the same unordered pair is removed. On a
  graph without parallel links that is the removal of the link alone; a self-loop
  is never marked.
\<close>

lemma getBridgeLinkKeys_pairs:
  assumes ends: "\<forall>l \<in> set ls. fst l \<in> set nodeIds \<and> snd l \<in> set nodeIds"
  shows "\<exists>K. getBridgeLinkKeys nodeIds ls = Inr K \<and>
     K = (\<lambda>e. normKey (fst e) (snd e)) `
           {e \<in> set ls. \<not> joined (without_pair e ls) (fst e) (snd e)} \<and>
     (\<forall>e \<in> set ls.
        (\<forall>e' \<in> set ls. normKey (fst e') (snd e') = normKey (fst e) (snd e) \<longrightarrow> same_pair e e') \<longrightarrow>
        (normKey (fst e) (snd e) \<in> K \<longleftrightarrow> \<not> joined (without_pair e ls) (fst e) (snd e)) \<and>
        (fst e = snd e \<longrightarrow> normKey (fst e) (snd e) \<notin> K))"
proof -
  let ?k = "\<lambda>e. normKey (fst e) (snd e)"
  let ?K = "?k ` {e \<in> set ls. \<not> joined (without_pair e ls) (fst e) (snd e)}"
  have res: "getBridgeLinkKeys nodeIds ls = Inr ?K"
    unfolding getBridgeLinkKeys_def bridgeLoop_result[OF ends] by simp
  have marks: "\<forall>e \<in> set ls.
        (\<forall>e' \<in> set ls. ?k e' = ?k e \<longrightarrow> same_pair e e') \<longrightarrow>
        (?k e \<in> ?K \<longleftrightarrow> \<not> joined (without_pair e ls) (fst e) (snd e)) \<and>
        (fst e = snd e \<longrightarrow> ?k e \<notin> ?K)"
  proof (intro ballI impI)
    fix e assume e: "e \<in> set ls"
      and uniq: "\<forall>e' \<in> set ls. ?k e' = ?k e \<longrightarrow> same_pair e e'"
    have iff: "?k e \<in> ?K \<longleftrightarrow> \<not> joined (without_pair e ls) (fst e) (snd e)"
    proof
      assume "?k e \<in> ?K"
      then obtain e' where e': "e' \<in> set ls" "?k e' = ?k e"
        "\<not> joined (without_pair e' ls) (fst e') (snd e')" by auto
      have sp: "same_pair e e'" using uniq e'(1,2) by blast
      show "\<not> joined (without_pair e ls) (fst e) (snd e)"
        using e'(3) unfolding same_pair_without[OF sp] same_pair_joined[OF sp] .
    next
      assume "\<not> joined (without_pair e ls) (fst e) (snd e)"
      then show "?k e \<in> ?K" using e by blast
    qed
    have "fst e = snd e \<longrightarrow> joined (without_pair e ls) (fst e) (snd e)"
      by (simp add: joined_refl)
    then show "(?k e \<in> ?K \<longleftrightarrow> \<not> joined (without_pair e ls) (fst e) (snd e)) \<and>
        (fst e = snd e \<longrightarrow> ?k e \<notin> ?K)" using iff by blast
  qed
  show ?thesis
    apply (rule exI[of _ ?K])
    apply (intro conjI)
      apply (rule res)
     apply (rule refl)
    apply (rule marks)
    done
qed

lemma getBridgeLinkKeys_pairs_example:
  "list_all (\<lambda>l. fst l \<in> set [''a'', ''b'', ''c''] \<and> snd l \<in> set [''a'', ''b'', ''c''])
     [(''a'', ''b''), (''b'', ''c''), (''c'', ''c'')] \<and>
   getBridgeLinkKeys [''a'', ''b'', ''c''] [(''a'', ''b''), (''b'', ''c''), (''c'', ''c'')] =
     Inr {''b-c'', ''a-b''} \<and>
   (\<exists>K. getBridgeLinkKeys [''a'', ''b'', ''c''] [(''a'', ''b''), (''b'', ''c''), (''c'', ''c'')] = Inr K \<and>
     K = (\<lambda>e. normKey (fst e) (snd e)) `
           {e \<in> set [(''a'', ''b''), (''b'', ''c''), (''c'', ''c'')].
              \<not> joined (without_pair e [(''a'', ''b''), (''b'', ''c''), (''c'', ''c'')]) (fst e) (snd e)} \<and>
     (\<forall>e \<in> set [(''a'', ''b''), (''b'', ''c''), (''c'', ''c'')].
        (\<forall>e' \<in> set [(''a'', ''b''), (''b'', ''c''), (''c'', ''c'')].
            normKey (fst e') (snd e') = normKey (fst e) (snd e) \<longrightarrow> same_pair e e') \<longrightarrow>
        (normKey (fst e) (snd e) \<in> K \<longleftrightarrow>
           \<not> joined (without_pair e [(''a'', ''b''), (''b'', ''c''), (''c'', ''c'')]) (fst e) (snd e)) \<and>
        (fst e = snd e \<longrightarrow> normKey (fst e) (snd e) \<notin> K)))"
proof -
  have h: "\<forall>l \<in> set [(''a'', ''b''), (''b'', ''c''), (''c'', ''c'')].
             fst l \<in> set [''a'', ''b'', ''c''] \<and> snd l \<in> set [''a'', ''b'', ''c'']"
    by simp
  have v: "getBridgeLinkKeys [''a'', ''b'', ''c''] [(''a'', ''b''), (''b'', ''c''), (''c'', ''c'')] =
     Inr {''b-c'', ''a-b''}"
    by (simp add: getBridgeLinkKeys_def bridgeStep_def adjGet_def adjPush_def normKey_def)
  show ?thesis
    apply (intro conjI)
      apply simp
     apply (rule v)
    apply (rule getBridgeLinkKeys_pairs[OF h])
    done
qed

text \<open>
  C5, at the input where the code departs from it. The graph has the nodes a and b
  and two parallel links between them. Removing one of the two links leaves the
  other, which still joins a and b, so neither link is a bridge; the code skips
  both copies when it builds the adjacency and marks the key a-b.
\<close>

theorem getBridgeLinkKeys_parallel_links:
  "getBridgeLinkKeys [''a'', ''b''] [(''a'', ''b''), (''a'', ''b'')] = Inr {''a-b''} \<and>
   normKey ''a'' ''b'' = ''a-b'' \<and>
   joined (remove_nth 0 [(''a'', ''b''), (''a'', ''b'')]) ''a'' ''b''"
proof -
  have v: "getBridgeLinkKeys [''a'', ''b''] [(''a'', ''b''), (''a'', ''b'')] = Inr {''a-b''}"
    by (simp add: getBridgeLinkKeys_def bridgeStep_def adjGet_def normKey_def)
  have k: "normKey ''a'' ''b'' = ''a-b''" by (simp add: normKey_def)
  have j: "joined (remove_nth 0 [(''a'', ''b''), (''a'', ''b'')]) ''a'' ''b''"
    by (rule joined_edge) (simp add: remove_nth_def)
  show ?thesis using v k j by (intro conjI)
qed


section \<open>Distances and the breadth-first labelling\<close>



























end
